theory Spec2Isabelle
  imports Main "HOL-Library.Word"
begin

unbundle bit_operations_syntax

section \<open>The E24LC256 EEPROM driver (24LC256.h)\<close>

text \<open>
  The driver is one C++ struct whose methods talk to the Arduino \<^verbatim>\<open>Wire\<close> bus object and
  read the \<^verbatim>\<open>micros()\<close> clock. The methods are embedded as state-passing functions over
  one record that holds the struct's members, the buffers of the bus object and the
  simulated EEPROM behind the bus. Machine integers are words of the width the source
  declares.
\<close>

type_synonym uint8 = "8 word"
type_synonym uint16 = "16 word"
type_synonym uint32 = "32 word"

subsection \<open>Build configuration\<close>

text \<open>
  The source has one compile-time switch, \<^verbatim>\<open>#ifdef ESP8266\<close>; every other target takes the
  \<^verbatim>\<open>#else\<close> branch, which the source's comments call the AVR Arduinos.
\<close>

datatype build = AVR | ESP8266

text \<open>\<^verbatim>\<open>const uint16_t pageSize\<close> of \<^verbatim>\<open>put\<close> (lines 72 to 76).\<close>

definition pageSize :: "build \<Rightarrow> uint16" where
  "pageSize b = (case b of ESP8266 \<Rightarrow> 64 | AVR \<Rightarrow> 32)"

text \<open>\<^verbatim>\<open>const uint8_t bufferSize\<close> of \<^verbatim>\<open>get\<close> (lines 120 to 124).\<close>

definition bufferSize :: "build \<Rightarrow> uint8" where
  "bufferSize b = (case b of ESP8266 \<Rightarrow> 128 | AVR \<Rightarrow> 32)"

text \<open>\<^verbatim>\<open>const uint16_t putSize = pageSize - 2\<close> (line 90).\<close>

definition putSize :: "build \<Rightarrow> uint16" where
  "putSize b = pageSize b - 2"

subsection \<open>State\<close>

datatype Status = UNKNOWN | EEPROM_NOT_FOUND | EEPROM_FOUND

text \<open>
  What crosses the bus is recorded as a list of events: every
  \<^verbatim>\<open>beginTransmission .. endTransmission\<close> cycle with the target, the bytes queued and the
  status code returned; every \<^verbatim>\<open>requestFrom\<close> with the target and the number of bytes
  asked for. \<open>Polled\<close> records the value each call of \<^verbatim>\<open>ackPolling\<close> returned; it is
  an observation only and no function reads the list.
\<close>

datatype event =
    Transmit uint8 "uint8 list" uint8
  | Request uint8 nat
  | Polled bool

text \<open>
  Memory faults of the C++ program: a load or store through a pointer that has left its
  object, and control reaching the end of a value-returning function without a
  \<^verbatim>\<open>return\<close>.
\<close>

datatype fault = BufferOverrun | MissingReturn

record state =
  EEPROMStatus :: Status
  I2CAddress :: uint8
  readBuffer :: "uint8 list"
  txAddress :: uint8
  txBuffer :: "uint8 list"
  rxBuffer :: "uint8 list"
  mem :: "uint16 \<Rightarrow> uint8"
  pointer :: uint16
  busy :: bool
  ticks :: nat
  ends :: nat
  trace :: "event list"

text \<open>
  The first three fields are the members of \<^verbatim>\<open>struct E24LC256\<close> (\<open>readBuffer\<close> is
  \<^verbatim>\<open>uint8_t readBuffer[64]\<close>). \<open>txAddress\<close>, \<open>txBuffer\<close> and \<open>rxBuffer\<close> belong to
  the bus object; \<open>mem\<close>, \<open>pointer\<close> and \<open>busy\<close> to the simulated EEPROM; \<open>ticks\<close>
  and \<open>ends\<close> count the calls of \<^verbatim>\<open>micros\<close> and \<^verbatim>\<open>endTransmission\<close>.

  The environment fixes what the program cannot control: the value each successive call of
  \<^verbatim>\<open>micros()\<close> returns, and whether a busy EEPROM has finished its internal write cycle
  by the time of each successive \<^verbatim>\<open>endTransmission\<close>.
\<close>

record env =
  clock :: "nat \<Rightarrow> uint32"
  wake :: "nat \<Rightarrow> bool"

definition events_since :: "state \<Rightarrow> state \<Rightarrow> event list" where
  "events_since s s' = drop (length (trace s)) (trace s')"

subsection \<open>The bus transport and the simulated EEPROM\<close>

text \<open>
  Modelled from the spec: the bus transport (\<^verbatim>\<open>Wire\<close>), the clock and the EEPROM are
  external collaborators of the driver and are not part of its source. The transport
  follows section 6 of the specification (begin, write, end with a status code where 0 is
  acknowledged, request, read) with the buffer capacity the source's comments give (32 bytes
  on AVR, 128 on ESP8266); a byte written to a full buffer is dropped and a read from an
  empty buffer yields -1, which the driver stores as 255. The EEPROM has a flat 16-bit
  address space; it takes a 2-byte big-endian address followed by data bytes, wraps a
  write inside its 64-byte page (glossary, Page), answers no transaction while an internal
  write cycle is in progress, and starts such a cycle after every write that carried data.
\<close>

definition wireCapacity :: "build \<Rightarrow> nat" where
  "wireCapacity b = (case b of ESP8266 \<Rightarrow> 128 | AVR \<Rightarrow> 32)"

definition micros :: "env \<Rightarrow> state \<Rightarrow> uint32 \<times> state" where
  "micros e s = (clock e (ticks s), s\<lparr>ticks := Suc (ticks s)\<rparr>)"

definition wire_begin :: "state \<Rightarrow> state" where
  "wire_begin s = s\<lparr>txBuffer := [], rxBuffer := []\<rparr>"

definition beginTransmission :: "uint8 \<Rightarrow> state \<Rightarrow> state" where
  "beginTransmission a s = s\<lparr>txAddress := a, txBuffer := []\<rparr>"

definition wire_write :: "build \<Rightarrow> uint8 \<Rightarrow> state \<Rightarrow> state" where
  "wire_write b x s =
     (if length (txBuffer s) < wireCapacity b then s\<lparr>txBuffer := txBuffer s @ [x]\<rparr> else s)"

definition nextInPage :: "uint16 \<Rightarrow> uint16" where
  "nextInPage a = a - a mod 64 + (a mod 64 + 1) mod 64"

fun storeBytes :: "(uint16 \<Rightarrow> uint8) \<Rightarrow> uint16 \<Rightarrow> uint8 list \<Rightarrow> uint16 \<Rightarrow> uint8" where
  "storeBytes m a [] = m"
| "storeBytes m a (x # xs) = storeBytes (m(a := x)) (nextInPage a) xs"

definition wordAddress :: "uint8 \<Rightarrow> uint8 \<Rightarrow> uint16" where
  "wordAddress hi lo = push_bit 8 (ucast hi) OR ucast lo"

definition deviceReceive :: "uint8 list \<Rightarrow> state \<Rightarrow> state" where
  "deviceReceive bytes s =
     (case bytes of
        hi # lo # payload \<Rightarrow>
          if payload = [] then s\<lparr>pointer := wordAddress hi lo\<rparr>
          else s\<lparr>mem := storeBytes (mem s) (wordAddress hi lo) payload,
                 pointer := wordAddress hi lo, busy := True\<rparr>
      | _ \<Rightarrow> s)"

definition endTransmission :: "env \<Rightarrow> state \<Rightarrow> uint8 \<times> state" where
  "endTransmission e s =
     (if busy s \<and> \<not> wake e (ends s)
      then (2, s\<lparr>ends := Suc (ends s),
                  trace := trace s @ [Transmit (txAddress s) (txBuffer s) 2]\<rparr>)
      else (0, deviceReceive (txBuffer s)
                 (s\<lparr>busy := False, ends := Suc (ends s),
                    trace := trace s @ [Transmit (txAddress s) (txBuffer s) 0]\<rparr>)))"

definition requestFrom :: "build \<Rightarrow> uint8 \<Rightarrow> uint8 \<Rightarrow> state \<Rightarrow> state" where
  "requestFrom b a quantity s =
     (if busy s then s\<lparr>rxBuffer := [], trace := trace s @ [Request a (unat quantity)]\<rparr>
      else s\<lparr>rxBuffer := map (\<lambda>k. mem s (pointer s + of_nat k))
                              [0 ..< min (unat quantity) (wireCapacity b)],
             pointer := pointer s + of_nat (min (unat quantity) (wireCapacity b)),
             trace := trace s @ [Request a (unat quantity)]\<rparr>)"

definition wire_read :: "state \<Rightarrow> uint8 \<times> state" where
  "wire_read s = (case rxBuffer s of [] \<Rightarrow> (255, s) | x # xs \<Rightarrow> (x, s\<lparr>rxBuffer := xs\<rparr>))"

subsection \<open>ackPolling (lines 177 to 187)\<close>

text \<open>
  The loop runs until a poll is acknowledged or the clock reads 6000 microseconds or more
  past \<open>startPolling\<close>; with a clock that stands still it never ends, so the loop is a
  partial function and \<open>None\<close> is a call that does not return. The clock is read by the
  loop condition only while \<open>code\<close> is not 0 (the \<^verbatim>\<open>&&\<close> short-circuits).
\<close>

partial_function (option) ackPolling_loop ::
  "env \<Rightarrow> build \<Rightarrow> uint32 \<Rightarrow> uint8 \<Rightarrow> state \<Rightarrow> (uint8 \<times> state) option" where
  "ackPolling_loop e b startPolling code s =
     (if code \<noteq> 0 then
        (case micros e s of
           (now, s1) \<Rightarrow>
             if now - startPolling < 6000 then
               (case endTransmission e (wire_write b 0 (beginTransmission (I2CAddress s1) s1)) of
                  (code', s2) \<Rightarrow> ackPolling_loop e b startPolling code' s2)
             else Some (code, s1))
      else Some (code, s))"

declare ackPolling_loop.simps [code]

definition ackPolling :: "env \<Rightarrow> build \<Rightarrow> state \<Rightarrow> (bool \<times> state) option" where
  "ackPolling e b s =
     (case micros e s of
        (startPolling, s1) \<Rightarrow>
          (case ackPolling_loop e b startPolling 1 s1 of
             None \<Rightarrow> None
           | Some (code, s2) \<Rightarrow>
               Some (code = 0, s2\<lparr>trace := trace s2 @ [Polled (code = 0)]\<rparr>)))"

subsection \<open>init and getStatus (lines 19 to 27, 60 to 62)\<close>

definition init :: "env \<Rightarrow> build \<Rightarrow> state \<Rightarrow> state option" where
  "init e b s =
     (case ackPolling e b (wire_begin s) of
        None \<Rightarrow> None
      | Some (ok, s1) \<Rightarrow>
          Some (s1\<lparr>EEPROMStatus := (if ok then EEPROM_FOUND else EEPROM_NOT_FOUND)\<rparr>))"

definition getStatus :: "state \<Rightarrow> Status" where
  "getStatus s = EEPROMStatus s"

subsection \<open>writeBytes, readBytes, compareBytes (lines 143 to 175)\<close>

definition hiByte :: "uint16 \<Rightarrow> uint8" where
  "hiByte address = ucast (drop_bit 8 address)"

definition loByte :: "uint16 \<Rightarrow> uint8" where
  "loByte address = ucast (address AND 0xFF)"

text \<open>
  A pointer into the caller's object that is only read is the list of the bytes from the
  pointer to the end of the object; \<^verbatim>\<open>ptr++\<close> is the tail. A pointer that is written
  through is the object's bytes and an offset.
\<close>

fun writeFrom :: "build \<Rightarrow> nat \<Rightarrow> uint8 list \<Rightarrow> state \<Rightarrow> fault + state" where
  "writeFrom b 0 ptr s = Inr s"
| "writeFrom b (Suc n) ptr s =
     (case ptr of
        [] \<Rightarrow> Inl BufferOverrun
      | x # rest \<Rightarrow> writeFrom b n rest (wire_write b x s))"

definition writeBytes ::
  "env \<Rightarrow> build \<Rightarrow> uint16 \<Rightarrow> uint8 list \<Rightarrow> uint8 \<Rightarrow> state \<Rightarrow> fault + state" where
  "writeBytes e b address ptr nBytes s =
     (case writeFrom b (unat nBytes) ptr
             (wire_write b (loByte address)
               (wire_write b (hiByte address) (beginTransmission (I2CAddress s) s))) of
        Inl f \<Rightarrow> Inl f
      | Inr s1 \<Rightarrow> Inr (snd (endTransmission e s1)))"

fun readInto :: "nat \<Rightarrow> uint8 list \<Rightarrow> nat \<Rightarrow> state \<Rightarrow> fault + (uint8 list \<times> state)" where
  "readInto 0 buf off s = Inr (buf, s)"
| "readInto (Suc n) buf off s =
     (case wire_read s of
        (x, s1) \<Rightarrow>
          if off < length buf then readInto n (buf[off := x]) (Suc off) s1
          else Inl BufferOverrun)"

definition readBytes ::
  "env \<Rightarrow> build \<Rightarrow> uint16 \<Rightarrow> uint8 list \<Rightarrow> nat \<Rightarrow> uint8 \<Rightarrow> state
     \<Rightarrow> fault + (uint8 list \<times> state)" where
  "readBytes e b address buf off nBytes s =
     readInto (unat nBytes) buf off
       (requestFrom b (I2CAddress s) nBytes
         (snd (endTransmission e
           (wire_write b (loByte address)
             (wire_write b (hiByte address) (beginTransmission (I2CAddress s) s))))))"

fun compareBytes :: "uint8 list \<Rightarrow> uint8 list \<Rightarrow> nat \<Rightarrow> fault + bool" where
  "compareBytes a b 0 = Inr True"
| "compareBytes a b (Suc n) =
     (case (a, b) of
        (x # xs, y # ys) \<Rightarrow> if x \<noteq> y then Inr False else compareBytes xs ys n
      | _ \<Rightarrow> Inl BufferOverrun)"

subsection \<open>read, write, update (lines 29 to 56)\<close>




subsection \<open>put (lines 68 to 115)\<close>

text \<open>Line 94, in the 16-bit arithmetic of \<^verbatim>\<open>uint16_t\<close>.\<close>

definition remainingPageSize :: "build \<Rightarrow> uint16 \<Rightarrow> uint16" where
  "remainingPageSize b address = pageSize b * (address div pageSize b + 1) - address"

text \<open>Lines 96 to 98.\<close>

definition nbytes :: "build \<Rightarrow> uint16 \<Rightarrow> uint16 \<Rightarrow> uint16" where
  "nbytes b address remainingDataSize =
     (let n = putSize b;
          n = (if remainingPageSize b address < n then remainingPageSize b address else n);
          n = (if remainingDataSize < n then remainingDataSize else n)
      in n)"

text \<open>
  The loop of lines 93 to 112. It ends when every call of \<open>ackPolling\<close> inside it
  returns, so it is a partial function as well. \<^verbatim>\<open>ptr\<close> is only read here. The
  \<^verbatim>\<open>uint16_t nbytes\<close> is narrowed to the \<^verbatim>\<open>uint8_t\<close> parameters of \<^verbatim>\<open>readBytes\<close>,
  \<^verbatim>\<open>compareBytes\<close> and \<^verbatim>\<open>writeBytes\<close>.
\<close>

partial_function (option) put_loop ::
  "env \<Rightarrow> build \<Rightarrow> uint16 \<Rightarrow> uint8 list \<Rightarrow> uint16 \<Rightarrow> state \<Rightarrow> (fault + state) option" where
  "put_loop e b address ptr remainingDataSize s =
     (if remainingDataSize > 0 then
        (case ackPolling e b s of
           None \<Rightarrow> None
         | Some (ok, s1) \<Rightarrow>
             if \<not> ok then Some (Inr s1)
             else
               (case readBytes e b address (readBuffer s1) 0
                       (ucast (nbytes b address remainingDataSize)) s1 of
                  Inl f \<Rightarrow> Some (Inl f)
                | Inr (buf, s2) \<Rightarrow>
                    (case compareBytes buf ptr
                            (unat (ucast (nbytes b address remainingDataSize) :: uint8)) of
                       Inl f \<Rightarrow> Some (Inl f)
                     | Inr same \<Rightarrow>
                         if same then
                           put_loop e b (address + nbytes b address remainingDataSize)
                             (drop (unat (nbytes b address remainingDataSize)) ptr)
                             (remainingDataSize - nbytes b address remainingDataSize)
                             (s2\<lparr>readBuffer := buf\<rparr>)
                         else
                           (case writeBytes e b address ptr
                                   (ucast (nbytes b address remainingDataSize))
                                   (s2\<lparr>readBuffer := buf\<rparr>) of
                              Inl f \<Rightarrow> Some (Inl f)
                            | Inr s3 \<Rightarrow>
                                (case ackPolling e b s3 of
                                   None \<Rightarrow> None
                                 | Some (settled, s4) \<Rightarrow>
                                     put_loop e b (address + nbytes b address remainingDataSize)
                                       (drop (unat (nbytes b address remainingDataSize)) ptr)
                                       (remainingDataSize - nbytes b address remainingDataSize)
                                       s4)))))
      else Some (Inr s))"

declare put_loop.simps [code]

text \<open>
  \<^verbatim>\<open>put\<close> takes the object as its bytes; \<^verbatim>\<open>sizeof(T)\<close> is their number, narrowed to
  \<^verbatim>\<open>uint16_t\<close> (lines 69 and 118). \<^verbatim>\<open>put\<close> returns its argument \<^verbatim>\<open>t\<close> on both
  \<^verbatim>\<open>return\<close> paths.
\<close>

definition sizeof :: "uint8 list \<Rightarrow> uint16" where
  "sizeof t = of_nat (length t)"

definition put ::
  "env \<Rightarrow> build \<Rightarrow> uint16 \<Rightarrow> uint8 list \<Rightarrow> state \<Rightarrow> (fault + (uint8 list \<times> state)) option" where
  "put e b address t s =
     (case put_loop e b address t (sizeof t) s of
        None \<Rightarrow> None
      | Some (Inl f) \<Rightarrow> Some (Inl f)
      | Some (Inr s') \<Rightarrow> Some (Inr (t, s')))"

subsection \<open>get (lines 117 to 137)\<close>

text \<open>
  The \<^verbatim>\<open>for\<close> loop of lines 127 to 134; \<^verbatim>\<open>i\<close> and \<^verbatim>\<open>size\<close> are \<^verbatim>\<open>uint16_t\<close>, and
  \<^verbatim>\<open>block\<close> (lines 128 to 131) is \<^verbatim>\<open>uint8_t\<close>. \<^verbatim>\<open>ptr\<close> is written through: it is the
  object's bytes \<open>t\<close> and the offset \<open>off\<close>. A store past the end of the object stops
  the loop with a fault (\<open>readInto\<close>).
\<close>

definition block :: "build \<Rightarrow> uint16 \<Rightarrow> uint16 \<Rightarrow> uint8" where
  "block b size' i =
     (if size' - i < ucast (bufferSize b) then ucast (size' - i) else bufferSize b)"

partial_function (option) get_loop ::
  "env \<Rightarrow> build \<Rightarrow> uint16 \<Rightarrow> uint16 \<Rightarrow> uint16 \<Rightarrow> uint8 list \<Rightarrow> nat \<Rightarrow> state
     \<Rightarrow> (fault + (uint8 list \<times> state)) option" where
  "get_loop e b address size' i t off s =
     (if i < size' then
        (case readBytes e b (address + i) t off (block b size' i) s of
           Inl f \<Rightarrow> Some (Inl f)
         | Inr (t1, s1) \<Rightarrow>
             get_loop e b address size' (i + ucast (bufferSize b)) t1
               (off + unat (block b size' i)) s1)
      else Some (Inr (t, s)))"

declare get_loop.simps [code]

definition get ::
  "env \<Rightarrow> build \<Rightarrow> uint16 \<Rightarrow> uint8 list \<Rightarrow> state \<Rightarrow> (fault + (uint8 list \<times> state)) option" where
  "get e b address t s =
     (case ackPolling e b s of
        None \<Rightarrow> None
      | Some (ok, s1) \<Rightarrow>
          if ok then get_loop e b address (sizeof t) 0 t 0 s1
          else Some (Inr (t, s1)))"

section \<open>Notions used in the statements and proofs\<close>

subsection \<open>The specification's chunk size\<close>

text \<open>
  Section 4.4 of the specification, steps 2a and 2b, over the natural numbers:
  \<open>bytes_to_page_boundary = page_size - (cursor mod page_size)\<close> and
  \<open>chunk = min(page_size - 2, bytes_to_page_boundary, remaining)\<close>.
\<close>

definition bytes_to_page_boundary :: "nat \<Rightarrow> nat \<Rightarrow> nat" where
  "bytes_to_page_boundary page_size cursor = page_size - cursor mod page_size"

definition chunk :: "nat \<Rightarrow> nat \<Rightarrow> nat \<Rightarrow> nat" where
  "chunk page_size cursor remaining =
     min (min (page_size - 2) (bytes_to_page_boundary page_size cursor)) remaining"

subsection \<open>Reading the event list\<close>

text \<open>
  The write transactions among a list of events, each with the memory address it carries
  and its payload: a transmission of two address bytes and at least one more byte. The
  byte counts of the \<^verbatim>\<open>requestFrom\<close> calls. The events since an earlier state are
  \<open>events_since\<close>, above.
\<close>

fun writes :: "event list \<Rightarrow> (uint16 \<times> uint8 list) list" where
  "writes [] = []"
| "writes (Transmit t (hi # lo # x # xs) st # evs) = (wordAddress hi lo, x # xs) # writes evs"
| "writes (ev # evs) = writes evs"

fun requests :: "event list \<Rightarrow> nat list" where
  "requests [] = []"
| "requests (Request t n # evs) = n # requests evs"
| "requests (ev # evs) = requests evs"

text \<open>
  The read transactions: an address-only transmission directly followed by a request, with
  the address and the number of bytes asked for.
\<close>

fun reads :: "event list \<Rightarrow> (uint16 \<times> nat) list" where
  "reads [] = []"
| "reads (Transmit t [hi, lo] st # Request t' n # evs) = (wordAddress hi lo, n) # reads evs"
| "reads (ev # evs) = reads evs"

text \<open>The results of the polls, in order.\<close>

fun polls :: "event list \<Rightarrow> bool list" where
  "polls [] = []"
| "polls (Polled ok # evs) = ok # polls evs"
| "polls (ev # evs) = polls evs"

text \<open>The events of a run of poll attempts to target \<open>a\<close> with status codes \<open>sts\<close>.\<close>

definition polled :: "uint8 \<Rightarrow> uint8 list \<Rightarrow> event list" where
  "polled a sts = map (Transmit a [0]) sts"

text \<open>The outcome of \<open>ackPolling\<close> and the events it caused.\<close>

definition pollEvents :: "env \<Rightarrow> build \<Rightarrow> state \<Rightarrow> (bool \<times> event list) option" where
  "pollEvents e b s =
     (case ackPolling e b s of None \<Rightarrow> None | Some (ok, s') \<Rightarrow> Some (ok, events_since s s'))"

text \<open>
  The specification's description of a poll (section 4.1): a transaction of zero length,
  carrying no bytes.
\<close>

definition zero_length :: "event \<Rightarrow> bool" where
  "zero_length ev = (case ev of Transmit t bytes st \<Rightarrow> bytes = [] | _ \<Rightarrow> False)"

subsection \<open>A clock that keeps going\<close>

text \<open>
  After every reading there is a later reading at least 6000 microseconds past it, in the
  32-bit arithmetic of the comparison in \<open>ackPolling\<close>.
\<close>

definition ticking :: "env \<Rightarrow> bool" where
  "ticking e = (\<forall>t. \<exists>k. 6000 \<le> clock e (t + Suc k) - clock e t)"

subsection \<open>Auxiliary notions of the proofs\<close>

text \<open>One poll attempt: the body of the loop of \<open>ackPolling\<close>.\<close>

definition attempt :: "env \<Rightarrow> build \<Rightarrow> state \<Rightarrow> uint8 \<times> state" where
  "attempt e b s = endTransmission e (wire_write b 0 (beginTransmission (I2CAddress s) s))"

text \<open>
  What the loop of \<open>ackPolling\<close> leaves behind when it is entered with \<open>code\<close> in state
  \<open>s\<close> and returns \<open>r\<close>.
\<close>

definition loop_post :: "uint8 \<Rightarrow> state \<Rightarrow> uint8 \<times> state \<Rightarrow> bool" where
  "loop_post code s r =
     ((code = 0 \<longrightarrow> r = (code, s)) \<and>
      EEPROMStatus (snd r) = EEPROMStatus s \<and> I2CAddress (snd r) = I2CAddress s \<and>
      readBuffer (snd r) = readBuffer s \<and> rxBuffer (snd r) = rxBuffer s \<and>
      mem (snd r) = mem s \<and> pointer (snd r) = pointer s \<and>
      (\<exists>sts. trace (snd r) = trace s @ polled (I2CAddress s) sts \<and>
             fst r = last (code # sts) \<and> 0 \<notin> set (butlast (code # sts))) \<and>
      (fst r = 0 \<longrightarrow> code = 0 \<or> \<not> busy (snd r)))"

text \<open>\<open>n\<close> calls of \<^verbatim>\<open>Wire.read()\<close> in a row.\<close>

fun readN :: "nat \<Rightarrow> state \<Rightarrow> uint8 list \<times> state" where
  "readN 0 s = ([], s)"
| "readN (Suc n) s =
     (case wire_read s of (x, s1) \<Rightarrow> (case readN n s1 of (xs, s2) \<Rightarrow> (x # xs, s2)))"

text \<open>The \<open>n\<close> bytes the EEPROM holds from address \<open>a\<close> on.\<close>

definition stored :: "(uint16 \<Rightarrow> uint8) \<Rightarrow> uint16 \<Rightarrow> nat \<Rightarrow> uint8 list" where
  "stored m a n = map (\<lambda>k. m (a + of_nat k)) [0..<n]"

text \<open>
  The state after \<open>readBytes\<close> of \<open>n\<close> bytes at \<open>a\<close>, and after \<open>writeBytes\<close> of
  \<open>data\<close> at \<open>a\<close>, on an EEPROM that is ready; the state after the read of a chunk into
  \<open>readBuffer\<close> in \<open>put\<close>.
\<close>

definition afterRead :: "uint16 \<Rightarrow> nat \<Rightarrow> state \<Rightarrow> state" where
  "afterRead a n s =
     s\<lparr>txAddress := I2CAddress s, txBuffer := [hiByte a, loByte a], rxBuffer := [],
       pointer := a + of_nat n, ends := Suc (ends s),
       trace := trace s @ [Transmit (I2CAddress s) [hiByte a, loByte a] 0,
                           Request (I2CAddress s) n]\<rparr>"

definition afterWrite :: "uint16 \<Rightarrow> uint8 list \<Rightarrow> state \<Rightarrow> state" where
  "afterWrite a data s =
     s\<lparr>txAddress := I2CAddress s, txBuffer := hiByte a # loByte a # data,
       mem := storeBytes (mem s) a data, pointer := a, busy := True, ends := Suc (ends s),
       trace := trace s @ [Transmit (I2CAddress s) (hiByte a # loByte a # data) 0]\<rparr>"

definition chunkRead :: "uint16 \<Rightarrow> nat \<Rightarrow> state \<Rightarrow> state" where
  "chunkRead a n s =
     (afterRead a n s)\<lparr>readBuffer := stored (mem s) a n @ drop n (readBuffer s)\<rparr>"

text \<open>
  The events of the loop of \<open>put\<close> and its effect on the EEPROM, iteration by iteration:
  the loop is over; or the poll fails and the loop is left; or the chunk read equals the
  chunk to write and the loop goes on; or it differs, is written, and the loop goes on
  after a second poll.
\<close>

inductive put_run ::
  "build \<Rightarrow> uint8 \<Rightarrow> (uint16 \<Rightarrow> uint8) \<Rightarrow> uint16 \<Rightarrow> uint8 list \<Rightarrow> uint16 \<Rightarrow> event list
     \<Rightarrow> (uint16 \<Rightarrow> uint8) \<Rightarrow> bool"
  for b :: build and i :: uint8 where
  finished: "put_run b i m a ptr 0 [] m"
| aborted: "r \<noteq> 0 \<Longrightarrow> put_run b i m a ptr r (polled i sts @ [Polled False]) m"
| unchanged:
    "r \<noteq> 0 \<Longrightarrow> n = unat (nbytes b a r) \<Longrightarrow> take n ptr = stored m a n \<Longrightarrow>
     put_run b i m (a + nbytes b a r) (drop n ptr) (r - nbytes b a r) rest m' \<Longrightarrow>
     put_run b i m a ptr r
       (polled i sts @ [Polled True, Transmit i [hiByte a, loByte a] 0, Request i n] @ rest) m'"
| written:
    "r \<noteq> 0 \<Longrightarrow> n = unat (nbytes b a r) \<Longrightarrow> take n ptr \<noteq> stored m a n \<Longrightarrow>
     put_run b i (storeBytes m a (take n ptr)) (a + nbytes b a r) (drop n ptr)
       (r - nbytes b a r) rest m' \<Longrightarrow>
     put_run b i m a ptr r
       (polled i sts @ [Polled True, Transmit i [hiByte a, loByte a] 0, Request i n,
                       Transmit i (hiByte a # loByte a # take n ptr) 0]
          @ polled i sts' @ [Polled settled] @ rest) m'"

subsection \<open>The specification's algorithm for put\<close>

text \<open>
  Section 4.4 of the specification, steps 2a to 2f, with every poll taken to succeed: the
  chunks of the byte view \<open>src\<close> in the order the loop visits them, each with its cursor,
  its bytes, and whether it is written. A chunk has
  \<open>min(page_size - 2, bytes_to_page_boundary, remaining)\<close> bytes; it is read, compared
  byte for byte with the bytes the EEPROM holds at the cursor, and written exactly when
  some byte differs; later chunks see the EEPROM as the writes have left it. The read
  transactions and the write transactions this algorithm issues are \<open>spec_reads\<close> and
  \<open>spec_writes\<close>.
\<close>

function spec_put ::
  "build \<Rightarrow> (uint16 \<Rightarrow> uint8) \<Rightarrow> uint16 \<Rightarrow> uint8 list
     \<Rightarrow> (uint16 \<times> uint8 list \<times> bool) list" where
  "spec_put b m cursor src =
     (if src = [] then []
      else let n = chunk (unat (pageSize b)) (unat cursor) (length src) in
        if take n src = stored m cursor n
        then (cursor, take n src, False) # spec_put b m (cursor + of_nat n) (drop n src)
        else (cursor, take n src, True)
               # spec_put b (storeBytes m cursor (take n src)) (cursor + of_nat n) (drop n src))"
  by pat_completeness auto
termination
proof (relation "measure (\<lambda>(b, m, cursor, src). length src)")
  have pos: "0 < chunk (unat (pageSize b)) c (length src)" if "src \<noteq> []"
    for b c and src :: "uint8 list"
    using that by (cases b) (simp_all add: chunk_def bytes_to_page_boundary_def pageSize_def)
  show "wf (measure (\<lambda>(b, m, cursor, src). length src))" by simp
  show "((b, m, cursor + of_nat n, drop n src), b, m, cursor, src)
          \<in> measure (\<lambda>(b, m, cursor, src). length src)"
    if "src \<noteq> []" "n = chunk (unat (pageSize b)) (unat cursor) (length src)"
    for b m cursor n and src :: "uint8 list"
    using that pos[of src b "unat cursor"] by simp
  show "((b, storeBytes m cursor (take n src), cursor + of_nat n, drop n src), b, m, cursor, src)
          \<in> measure (\<lambda>(b, m, cursor, src). length src)"
    if "src \<noteq> []" "n = chunk (unat (pageSize b)) (unat cursor) (length src)"
    for b m cursor n and src :: "uint8 list"
    using that pos[of src b "unat cursor"] by simp
qed

declare spec_put.simps [simp del]

definition spec_reads ::
  "build \<Rightarrow> (uint16 \<Rightarrow> uint8) \<Rightarrow> uint16 \<Rightarrow> uint8 list \<Rightarrow> (uint16 \<times> nat) list" where
  "spec_reads b m cursor src = map (\<lambda>(c, d, w). (c, length d)) (spec_put b m cursor src)"

definition spec_writes ::
  "build \<Rightarrow> (uint16 \<Rightarrow> uint8) \<Rightarrow> uint16 \<Rightarrow> uint8 list
     \<Rightarrow> (uint16 \<times> uint8 list) list" where
  "spec_writes b m cursor src =
     map (\<lambda>(c, d, w). (c, d)) (filter (\<lambda>(c, d, w). w) (spec_put b m cursor src))"

subsection \<open>The events of get\<close>

text \<open>
  The events of the loop of \<open>get\<close> from its chunk \<open>j\<close> on, for an object of \<open>n\<close> bytes
  read in chunks of \<open>cap\<close> bytes: one read transaction for each chunk.
\<close>

definition chunkEvents :: "uint8 \<Rightarrow> uint16 \<Rightarrow> nat \<Rightarrow> nat \<Rightarrow> nat \<Rightarrow> event list" where
  "chunkEvents target address cap n j =
     concat (map (\<lambda>k. [Transmit target [hiByte (address + of_nat (k * cap)),
                                         loByte (address + of_nat (k * cap))] 0,
                        Request target (min cap (n - k * cap))])
                 [j ..< (n + cap - 1) div cap])"

subsection \<open>Concrete environments and states\<close>

text \<open>
  For the instances below: a transport that is never acknowledged, with 2500 microseconds
  between clock readings; one that always is, with 100 microseconds between readings; an
  idle bus in front of an erased EEPROM.
\<close>

definition deaf :: env where
  "deaf = \<lparr>clock = (\<lambda>n. of_nat n * 2500), wake = (\<lambda>_. False)\<rparr>"

definition prompt :: env where
  "prompt = \<lparr>clock = (\<lambda>n. of_nat n * 100), wake = (\<lambda>_. True)\<rparr>"

definition blank :: state where
  "blank = \<lparr>EEPROMStatus = UNKNOWN, I2CAddress = 0x50, readBuffer = replicate 64 0,
     txAddress = 0, txBuffer = [], rxBuffer = [], mem = (\<lambda>_. 0xFF), pointer = 0,
     busy = False, ticks = 0, ends = 0, trace = []\<rparr>"

section \<open>Page arithmetic\<close>

lemma pageSize_cases: "pageSize b = 32 \<or> pageSize b = 64"
  by (cases b) (simp_all add: pageSize_def)

lemma unat_pageSize: "unat (pageSize b) = (case b of ESP8266 \<Rightarrow> 64 | AVR \<Rightarrow> 32)"
  by (cases b) (simp_all add: pageSize_def)

lemma unat_putSize: "unat (putSize b) = unat (pageSize b) - 2"
  by (cases b) (simp_all add: putSize_def pageSize_def)

lemma remainingPageSize_eq:
  "remainingPageSize b a = pageSize b - a mod pageSize b"
proof -
  have "a = pageSize b * (a div pageSize b) + a mod pageSize b"
    by (simp add: mult_div_mod_eq)
  then have "pageSize b * (a div pageSize b + 1) - a = pageSize b - a mod pageSize b"
    by (simp add: algebra_simps)
  then show ?thesis by (simp add: remainingPageSize_def)
qed

lemma unat_remainingPageSize:
  "unat (remainingPageSize b a) = unat (pageSize b) - unat a mod unat (pageSize b)"
proof -
  have "0 < pageSize b" using pageSize_cases[of b] by auto
  then have "a mod pageSize b < pageSize b" by (rule word_mod_less_divisor)
  then have "a mod pageSize b \<le> pageSize b" by simp
  then have "unat (pageSize b - a mod pageSize b) = unat (pageSize b) - unat (a mod pageSize b)"
    by (rule unat_sub)
  then show ?thesis by (simp add: remainingPageSize_eq unat_mod)
qed

text \<open>
  C4. For every 16-bit address and both builds, the expression of line 94,
  \<^verbatim>\<open>pageSize * (address / pageSize + 1) - address\<close>, computed with 16-bit wrap-around, has
  the value \<open>page_size - (address mod page_size)\<close> of the specification. This includes
  the last page, where the product is \<open>2^16\<close> and wraps to 0.
\<close>

theorem remainingPageSize_is_bytes_to_page_boundary:
  "unat (remainingPageSize b address) =
     bytes_to_page_boundary (unat (pageSize b)) (unat address)"
  by (simp add: bytes_to_page_boundary_def unat_remainingPageSize)

lemma last_page_product_wraps:
  "pageSize AVR * (65535 div pageSize AVR + 1) = 0"
  "pageSize ESP8266 * (65535 div pageSize ESP8266 + 1) = 0"
  "remainingPageSize AVR 65535 = 1" "remainingPageSize ESP8266 65535 = 1"
  by (simp_all add: pageSize_def remainingPageSize_def)

section \<open>Readiness polling\<close>

lemma wireCapacity_pos: "0 < wireCapacity b"
  by (cases b) (simp_all add: wireCapacity_def)

lemma attempt_eq:
  "attempt e b s =
     (if busy s \<and> \<not> wake e (ends s)
      then (2, s\<lparr>txAddress := I2CAddress s, txBuffer := [0], ends := Suc (ends s),
                 trace := trace s @ [Transmit (I2CAddress s) [0] 2]\<rparr>)
      else (0, s\<lparr>txAddress := I2CAddress s, txBuffer := [0], busy := False, ends := Suc (ends s),
                 trace := trace s @ [Transmit (I2CAddress s) [0] 0]\<rparr>))"
  by (simp add: attempt_def endTransmission_def wire_write_def beginTransmission_def
      wireCapacity_pos deviceReceive_def)

lemma attempt_frame:
  assumes "attempt e b s = (c, s2)"
  shows "EEPROMStatus s2 = EEPROMStatus s" "I2CAddress s2 = I2CAddress s"
        "readBuffer s2 = readBuffer s" "rxBuffer s2 = rxBuffer s" "mem s2 = mem s"
        "pointer s2 = pointer s" "trace s2 = trace s @ [Transmit (I2CAddress s) [0] c]"
        "c = 0 \<longrightarrow> \<not> busy s2" "ticks s2 = ticks s" "ends s2 = Suc (ends s)"
        "c = (if busy s \<and> \<not> wake e (ends s) then 2 else 0)"
  using assms by (cases "busy s \<and> \<not> wake e (ends s)"; simp add: attempt_eq; fastforce)+

lemma attempt_ticks: "ticks (snd (attempt e b s)) = ticks s"
  by (simp add: attempt_eq)

lemma attempt_step:
  "ackPolling_loop e b st code s =
     (if code \<noteq> 0 then
        if clock e (ticks s) - st < 6000
        then ackPolling_loop e b st (fst (attempt e b (s\<lparr>ticks := Suc (ticks s)\<rparr>)))
               (snd (attempt e b (s\<lparr>ticks := Suc (ticks s)\<rparr>)))
        else Some (code, s\<lparr>ticks := Suc (ticks s)\<rparr>)
      else Some (code, s))"
  by (subst ackPolling_loop.simps) (simp add: micros_def attempt_def split: prod.splits)

lemma events_since_append: "trace s' = trace s @ evs \<Longrightarrow> events_since s s' = evs"
  by (simp add: events_since_def)

subsection \<open>What a returning poll leaves behind\<close>

lemma loop_post_exit: "code \<noteq> 0 \<Longrightarrow> loop_post code s (code, s\<lparr>ticks := n\<rparr>)"
  unfolding loop_post_def
  apply (intro conjI)
          apply simp_all
  apply (rule exI[of _ "[]"])
  apply (simp add: polled_def)
  done

lemma loop_post_id: "loop_post code s (code, s)"
  unfolding loop_post_def
  apply (intro conjI)
          apply simp_all
  apply (rule exI[of _ "[]"])
  apply (simp add: polled_def)
  done

lemma loop_post_step:
  assumes "code \<noteq> 0" and att: "attempt e b (s\<lparr>ticks := n\<rparr>) = (c, s2)"
    and post: "loop_post c s2 r"
  shows "loop_post code s r"
proof -
  note s2 = attempt_frame[OF att, simplified]
  from post obtain sts where sts: "trace (snd r) = trace s2 @ polled (I2CAddress s2) sts"
    "fst r = last (c # sts)" "0 \<notin> set (butlast (c # sts))"
    unfolding loop_post_def by blast
  have "trace (snd r) = trace s @ polled (I2CAddress s) (c # sts)"
    using sts(1) s2 by (simp add: polled_def)
  moreover have "fst r = last (code # c # sts)" using sts(2) by simp
  moreover have "0 \<notin> set (butlast (code # c # sts))" using sts(3) assms(1) by simp
  ultimately have ex: "\<exists>sts. trace (snd r) = trace s @ polled (I2CAddress s) sts \<and>
                fst r = last (code # sts) \<and> 0 \<notin> set (butlast (code # sts))" by blast
  have busy: "fst r = 0 \<longrightarrow> \<not> busy (snd r)"
  proof (cases "c = 0")
    case True
    then have "r = (c, s2)" using post by (simp add: loop_post_def)
    then show ?thesis using s2 True by simp
  next
    case False
    then show ?thesis using post by (simp add: loop_post_def)
  qed
  have frame: "EEPROMStatus (snd r) = EEPROMStatus s" "I2CAddress (snd r) = I2CAddress s"
         "readBuffer (snd r) = readBuffer s" "rxBuffer (snd r) = rxBuffer s"
         "mem (snd r) = mem s" "pointer (snd r) = pointer s"
    using post s2(1-6) by (simp_all add: loop_post_def)
  show ?thesis
    unfolding loop_post_def
    using assms(1) ex busy frame by (intro conjI) (simp_all only: simp_thms)
qed

lemma ackPolling_loop_partial:
  assumes ret: "ackPolling_loop e b st code s = Some r"
  shows "loop_post code s r"
proof (rule ackPolling_loop.raw_induct[where P = "\<lambda>e b st code s r. loop_post code s r", OF _ ret])
  fix f :: "env \<Rightarrow> build \<Rightarrow> uint32 \<Rightarrow> uint8 \<Rightarrow> state \<Rightarrow> (uint8 \<times> state) option"
  fix e b st code s r
  assume ih: "\<And>e b st code s r. f e b st code s = Some r \<Longrightarrow> loop_post code s r"
  assume eq: "(if code \<noteq> 0 then
        (case micros e s of
           (now, s1) \<Rightarrow>
             if now - st < 6000 then
               (case endTransmission e (wire_write b 0 (beginTransmission (I2CAddress s1) s1)) of
                  (code', s2) \<Rightarrow> f e b st code' s2)
             else Some (code, s1))
      else Some (code, s)) = Some r"
  show "loop_post code s r"
  proof (cases "code = 0")
    case True
    with eq have "r = (code, s)" by simp
    then show ?thesis by (simp add: loop_post_id)
  next
    case False
    show ?thesis
    proof (cases "clock e (ticks s) - st < 6000")
      case out: False
      with False eq have "r = (code, s\<lparr>ticks := Suc (ticks s)\<rparr>)" by (simp add: micros_def)
      then show ?thesis using False by (simp add: loop_post_exit)
    next
      case inr: True
      obtain c s2 where att: "attempt e b (s\<lparr>ticks := Suc (ticks s)\<rparr>) = (c, s2)"
        by (cases "attempt e b (s\<lparr>ticks := Suc (ticks s)\<rparr>)")
      from att have att': "endTransmission e (wire_write b 0
          (beginTransmission (I2CAddress s) (s\<lparr>ticks := Suc (ticks s)\<rparr>))) = (c, s2)"
        by (simp add: attempt_def)
      from False inr eq have rec: "f e b st c s2 = Some r"
        by (simp add: micros_def att')
      show ?thesis by (rule loop_post_step[OF False att ih[OF rec]])
    qed
  qed
qed

lemma ackPolling_post:
  assumes "ackPolling e b s = Some (ok, s')"
  shows "EEPROMStatus s' = EEPROMStatus s" "I2CAddress s' = I2CAddress s"
    "readBuffer s' = readBuffer s" "rxBuffer s' = rxBuffer s" "mem s' = mem s"
    "pointer s' = pointer s"
    "\<exists>sts. trace s' = trace s @ polled (I2CAddress s) sts @ [Polled ok] \<and>
           ok = (sts \<noteq> [] \<and> last sts = 0) \<and> 0 \<notin> set (butlast sts)"
    "ok \<longrightarrow> \<not> busy s'"
proof -
  from assms obtain code s2 where
    loop: "ackPolling_loop e b (clock e (ticks s)) 1 (s\<lparr>ticks := Suc (ticks s)\<rparr>) = Some (code, s2)"
    and ok: "ok = (code = 0)" and s': "s' = s2\<lparr>trace := trace s2 @ [Polled (code = 0)]\<rparr>"
    by (auto simp: ackPolling_def micros_def split: option.splits)
  note post = ackPolling_loop_partial[OF loop, unfolded loop_post_def, simplified]
  show "EEPROMStatus s' = EEPROMStatus s" "I2CAddress s' = I2CAddress s"
    "readBuffer s' = readBuffer s" "rxBuffer s' = rxBuffer s" "mem s' = mem s"
    "pointer s' = pointer s" "ok \<longrightarrow> \<not> busy s'"
    using post by (simp_all add: s' ok)
  from ackPolling_loop_partial[OF loop] obtain sts where
    sts: "trace s2 = trace s @ polled (I2CAddress s) sts" "code = last (1 # sts)"
         "0 \<notin> set (butlast (1 # sts))"
    unfolding loop_post_def by auto
  have "trace s' = trace s @ polled (I2CAddress s) sts @ [Polled ok]"
    using sts(1) by (simp add: s' ok)
  moreover have "ok = (sts \<noteq> [] \<and> last sts = 0)" using sts(2) by (simp add: ok)
  moreover have "0 \<notin> set (butlast sts)" using sts(3) by (cases sts) auto
  ultimately show "\<exists>sts. trace s' = trace s @ polled (I2CAddress s) sts @ [Polled ok] \<and>
           ok = (sts \<noteq> [] \<and> last sts = 0) \<and> 0 \<notin> set (butlast sts)" by blast
qed

subsection \<open>A poll returns when the clock keeps going\<close>

lemma ackPolling_loop_returns:
  "6000 \<le> clock e (ticks s + k) - st \<Longrightarrow> \<exists>r. ackPolling_loop e b st code s = Some r"
proof (induction k arbitrary: s code)
  case 0
  then have "\<not> clock e (ticks s) - st < 6000" by simp
  then show ?case by (subst attempt_step) simp
next
  case (Suc k)
  let ?s2 = "snd (attempt e b (s\<lparr>ticks := Suc (ticks s)\<rparr>))"
  have "ticks ?s2 + k = ticks s + Suc k" by (simp add: attempt_ticks)
  with Suc.prems have "6000 \<le> clock e (ticks ?s2 + k) - st" by simp
  from Suc.IH[OF this] show ?case by (subst attempt_step) simp
qed

lemma ackPolling_returns:
  assumes "6000 \<le> clock e (ticks s + Suc k) - clock e (ticks s)"
  shows "\<exists>ok s'. ackPolling e b s = Some (ok, s')"
proof -
  have "6000 \<le> clock e (ticks (s\<lparr>ticks := Suc (ticks s)\<rparr>) + k) - clock e (ticks s)"
    using assms by simp
  from ackPolling_loop_returns[OF this]
  obtain r where "ackPolling_loop e b (clock e (ticks s)) 1 (s\<lparr>ticks := Suc (ticks s)\<rparr>) = Some r"
    by blast
  then show ?thesis by (cases r) (simp add: ackPolling_def micros_def)
qed

lemma ticking_returns: "ticking e \<Longrightarrow> \<exists>ok s'. ackPolling e b s = Some (ok, s')"
  unfolding ticking_def using ackPolling_returns by blast

subsection \<open>A transport that never acknowledges\<close>

lemma deaf_loop:
  assumes "busy s" "\<forall>k. \<not> wake e k" "code \<noteq> 0"
    "\<forall>j<n. clock e (ticks s + j) - st < 6000" "6000 \<le> clock e (ticks s + n) - st"
  shows "\<exists>c s'. ackPolling_loop e b st code s = Some (c, s') \<and> c \<noteq> 0 \<and>
           trace s' = trace s @ replicate n (Transmit (I2CAddress s) [0] 2) \<and>
           ticks s' = ticks s + n + 1 \<and> ends s' = ends s + n"
  using assms
proof (induction n arbitrary: s code)
  case 0
  then have "\<not> clock e (ticks s) - st < 6000" by simp
  with 0 show ?case by (subst attempt_step) simp
next
  case (Suc n)
  let ?s1 = "s\<lparr>ticks := Suc (ticks s)\<rparr>"
  let ?s2 = "?s1\<lparr>txAddress := I2CAddress s, txBuffer := [0], ends := Suc (ends s),
                 trace := trace s @ [Transmit (I2CAddress s) [0] 2]\<rparr>"
  have att: "attempt e b ?s1 = (2, ?s2)"
    using Suc.prems(1,2) by (simp add: attempt_eq)
  have now: "clock e (ticks s) - st < 6000" using Suc.prems(4) by force
  have "\<forall>j<n. clock e (ticks ?s2 + j) - st < 6000"
    using Suc.prems(4) by (auto dest: spec[of _ "Suc _"])
  moreover have "6000 \<le> clock e (ticks ?s2 + n) - st" using Suc.prems(5) by simp
  moreover have "busy ?s2" using Suc.prems(1) by simp
  ultimately obtain c s' where r: "ackPolling_loop e b st 2 ?s2 = Some (c, s')" "c \<noteq> 0"
    "trace s' = trace ?s2 @ replicate n (Transmit (I2CAddress ?s2) [0] 2)"
    "ticks s' = ticks ?s2 + n + 1" "ends s' = ends ?s2 + n"
    using Suc.IH[of ?s2 2] Suc.prems(2) by auto
  have "ackPolling_loop e b st code s = Some (c, s')"
    using Suc.prems(3) now att r(1) by (subst attempt_step) simp
  moreover have "trace s' = trace s @ replicate (Suc n) (Transmit (I2CAddress s) [0] 2)"
    using r(3) by simp
  ultimately show ?case using r(2,4,5) by simp
qed

text \<open>
  C7. When the transport never acknowledges (the EEPROM is busy and never wakes, so that
  every \<^verbatim>\<open>endTransmission\<close> returns 2) and the clock reaches 6000 microseconds past the
  first reading, \<open>ackPolling\<close> returns, and returns false. It returns at the first reading
  \<open>n\<close> of the loop condition that is 6000 microseconds or more past the start; it has made
  exactly \<open>n\<close> poll attempts, one after each earlier reading, all of which were below
  6000 microseconds.
\<close>

theorem ackPolling_times_out:
  assumes "busy s" and "\<forall>k. \<not> wake e k"
    and "\<exists>k. 6000 \<le> clock e (ticks s + Suc k) - clock e (ticks s)"
  shows "\<exists>n s'. ackPolling e b s = Some (False, s') \<and>
           6000 \<le> clock e (ticks s + Suc n) - clock e (ticks s) \<and>
           (\<forall>j<n. clock e (ticks s + Suc j) - clock e (ticks s) < 6000) \<and>
           events_since s s' = replicate n (Transmit (I2CAddress s) [0] 2) @ [Polled False] \<and>
           ticks s' = ticks s + n + 2"
proof -
  define n where "n = (LEAST k. 6000 \<le> clock e (ticks s + Suc k) - clock e (ticks s))"
  have reach: "6000 \<le> clock e (ticks s + Suc n) - clock e (ticks s)"
    unfolding n_def using assms(3) by (rule LeastI_ex)
  have before: "\<forall>j<n. clock e (ticks s + Suc j) - clock e (ticks s) < 6000"
    unfolding n_def using not_less_Least by (fastforce simp: not_le)
  let ?s1 = "s\<lparr>ticks := Suc (ticks s)\<rparr>"
  have "\<exists>c s'. ackPolling_loop e b (clock e (ticks s)) 1 ?s1 = Some (c, s') \<and> c \<noteq> 0 \<and>
           trace s' = trace ?s1 @ replicate n (Transmit (I2CAddress ?s1) [0] 2) \<and>
           ticks s' = ticks ?s1 + n + 1 \<and> ends s' = ends ?s1 + n"
    using assms(1,2) reach before by (intro deaf_loop) simp_all
  then obtain c s2 where r: "ackPolling_loop e b (clock e (ticks s)) 1 ?s1 = Some (c, s2)"
    "c \<noteq> 0" "trace s2 = trace s @ replicate n (Transmit (I2CAddress s) [0] 2)"
    "ticks s2 = ticks s + n + 2" by auto
  let ?s' = "s2\<lparr>trace := trace s2 @ [Polled False]\<rparr>"
  have "ackPolling e b s = Some (False, ?s')"
    using r(1,2) by (simp add: ackPolling_def micros_def)
  moreover have "events_since s ?s' = replicate n (Transmit (I2CAddress s) [0] 2) @ [Polled False]"
    by (rule events_since_append) (simp add: r(3))
  moreover have "ticks ?s' = ticks s + n + 2" using r(4) by simp
  ultimately show ?thesis using reach before by blast
qed

theorem ackPolling_times_out_witness:
  "\<exists>n s'. ackPolling deaf AVR (blank\<lparr>busy := True\<rparr>) = Some (False, s') \<and>
           6000 \<le> clock deaf (Suc n) - clock deaf 0 \<and>
           (\<forall>j<n. clock deaf (Suc j) - clock deaf 0 < 6000) \<and>
           events_since (blank\<lparr>busy := True\<rparr>) s' =
             replicate n (Transmit 0x50 [0] 2) @ [Polled False] \<and>
           ticks s' = n + 2"
proof -
  have "\<exists>k. 6000 \<le> clock deaf (ticks (blank\<lparr>busy := True\<rparr>) + Suc k)
               - clock deaf (ticks (blank\<lparr>busy := True\<rparr>))"
    by (rule exI[of _ 2]) (simp add: deaf_def blank_def)
  moreover have "busy (blank\<lparr>busy := True\<rparr>)" by simp
  moreover have "\<forall>k. \<not> wake deaf k" by (simp add: deaf_def)
  ultimately show ?thesis
    using ackPolling_times_out[of "blank\<lparr>busy := True\<rparr>" deaf AVR]
    by (simp add: blank_def)
qed
subsection \<open>The attempts of a poll\<close>

lemma ackPolling_loop_timeout:
  assumes ret: "ackPolling_loop e b st code s = Some r"
  shows "(code = 0 \<longrightarrow> r = (code, s)) \<and>
         (code \<noteq> 0 \<longrightarrow> fst r \<noteq> 0 \<longrightarrow>
            0 < ticks (snd r) \<and> 6000 \<le> clock e (ticks (snd r) - 1) - st)"
proof (rule ackPolling_loop.raw_induct[where P = "\<lambda>e b st code s r. (code = 0 \<longrightarrow> r = (code, s)) \<and>
         (code \<noteq> 0 \<longrightarrow> fst r \<noteq> 0 \<longrightarrow>
            0 < ticks (snd r) \<and> 6000 \<le> clock e (ticks (snd r) - 1) - st)", OF _ ret])
  fix f :: "env \<Rightarrow> build \<Rightarrow> uint32 \<Rightarrow> uint8 \<Rightarrow> state \<Rightarrow> (uint8 \<times> state) option"
  fix e b st code s r
  assume ih: "\<And>e b st code s r. f e b st code s = Some r \<Longrightarrow> (code = 0 \<longrightarrow> r = (code, s)) \<and>
         (code \<noteq> 0 \<longrightarrow> fst r \<noteq> 0 \<longrightarrow>
            0 < ticks (snd r) \<and> 6000 \<le> clock e (ticks (snd r) - 1) - st)"
  assume eq: "(if code \<noteq> 0 then
        (case micros e s of
           (now, s1) \<Rightarrow>
             if now - st < 6000 then
               (case endTransmission e (wire_write b 0 (beginTransmission (I2CAddress s1) s1)) of
                  (code', s2) \<Rightarrow> f e b st code' s2)
             else Some (code, s1))
      else Some (code, s)) = Some r"
  show "(code = 0 \<longrightarrow> r = (code, s)) \<and>
         (code \<noteq> 0 \<longrightarrow> fst r \<noteq> 0 \<longrightarrow>
            0 < ticks (snd r) \<and> 6000 \<le> clock e (ticks (snd r) - 1) - st)"
  proof (cases "code = 0")
    case True
    with eq show ?thesis by simp
  next
    case False
    show ?thesis
    proof (cases "clock e (ticks s) - st < 6000")
      case out: False
      with False eq have "r = (code, s\<lparr>ticks := Suc (ticks s)\<rparr>)" by (simp add: micros_def)
      then show ?thesis using False out by (simp add: not_less)
    next
      case inr: True
      obtain c s2 where att: "attempt e b (s\<lparr>ticks := Suc (ticks s)\<rparr>) = (c, s2)"
        by (cases "attempt e b (s\<lparr>ticks := Suc (ticks s)\<rparr>)")
      from att have att': "endTransmission e (wire_write b 0
          (beginTransmission (I2CAddress s) (s\<lparr>ticks := Suc (ticks s)\<rparr>))) = (c, s2)"
        by (simp add: attempt_def)
      from False inr eq have rec: "f e b st c s2 = Some r"
        by (simp add: micros_def att')
      show ?thesis using ih[OF rec] False by (cases "c = 0") auto
    qed
  qed
qed

text \<open>
  C8 as stated fails: a poll attempt is not a zero-length transaction. Each attempt queues
  one byte, 0, between \<^verbatim>\<open>beginTransmission\<close> and \<^verbatim>\<open>endTransmission\<close> (line 183). On a
  ready EEPROM the one attempt of a poll carries the byte list \<open>[0]\<close>.
\<close>

theorem poll_attempt_carries_one_byte:
  "pollEvents prompt AVR blank = Some (True, [Transmit 0x50 [0] 0, Polled True]) \<and>
   \<not> zero_length (Transmit 0x50 [0] 0)"
  by (simp add: pollEvents_def events_since_def ackPolling_def ackPolling_loop.simps micros_def
      prompt_def blank_def endTransmission_def wire_write_def beginTransmission_def
      wireCapacity_def deviceReceive_def zero_length_def)

text \<open>
  C8, amended. When the clock reaches 6000 microseconds past the first reading,
  \<open>ackPolling\<close> returns. Its events are its poll attempts, each a transmission to the
  driver's target that carries exactly one byte, 0, followed by the record of its result.
  It returns true exactly when it made an attempt and the last one was acknowledged
  (status 0); no earlier attempt was acknowledged; and when it returns false the last
  clock reading was 6000 microseconds or more past the first.
\<close>

theorem ackPolling_attempts:
  assumes "\<exists>k. 6000 \<le> clock e (ticks s + Suc k) - clock e (ticks s)"
  shows "\<exists>ok s' sts. ackPolling e b s = Some (ok, s') \<and>
           events_since s s' = polled (I2CAddress s) sts @ [Polled ok] \<and>
           ok = (sts \<noteq> [] \<and> last sts = 0) \<and> 0 \<notin> set (butlast sts) \<and>
           (\<not> ok \<longrightarrow> 6000 \<le> clock e (ticks s' - 1) - clock e (ticks s))"
proof -
  from assms ackPolling_returns obtain ok s' where ret: "ackPolling e b s = Some (ok, s')"
    by blast
  from ackPolling_post(7)[OF ret] obtain sts where
    sts: "trace s' = trace s @ polled (I2CAddress s) sts @ [Polled ok]"
      "ok = (sts \<noteq> [] \<and> last sts = 0)" "0 \<notin> set (butlast sts)" by blast
  from ret obtain code s2 where
    loop: "ackPolling_loop e b (clock e (ticks s)) 1 (s\<lparr>ticks := Suc (ticks s)\<rparr>) = Some (code, s2)"
    and ok: "ok = (code = 0)" and s': "s' = s2\<lparr>trace := trace s2 @ [Polled (code = 0)]\<rparr>"
    by (auto simp: ackPolling_def micros_def split: option.splits)
  have "\<not> ok \<longrightarrow> 6000 \<le> clock e (ticks s' - 1) - clock e (ticks s)"
    using ackPolling_loop_timeout[OF loop] by (simp add: ok s')
  moreover have "events_since s s' = polled (I2CAddress s) sts @ [Polled ok]"
    using sts(1) by (rule events_since_append)
  ultimately show ?thesis using ret sts(2,3) by blast
qed

theorem ackPolling_attempts_witness:
  "\<exists>ok s' sts. ackPolling prompt AVR blank = Some (ok, s') \<and>
           events_since blank s' = polled (I2CAddress blank) sts @ [Polled ok] \<and>
           ok = (sts \<noteq> [] \<and> last sts = 0) \<and> 0 \<notin> set (butlast sts) \<and>
           (\<not> ok \<longrightarrow> 6000 \<le> clock prompt (ticks s' - 1) - clock prompt (ticks blank))"
proof -
  have "\<exists>k. 6000 \<le> clock prompt (ticks blank + Suc k) - clock prompt (ticks blank)"
    by (rule exI[of _ 60]) (simp add: prompt_def blank_def)
  then show ?thesis by (rule ackPolling_attempts)
qed

section \<open>Block transfers\<close>

lemma wordAddress_bytes: "wordAddress (hiByte a) (loByte a) = a"
proof -
  have m: "(255 :: uint16) = mask 8" by (simp add: mask_eq_exp_minus_1)
  show ?thesis
    unfolding wordAddress_def hiByte_def loByte_def m
    by (rule bit_word_eqI) (auto simp add: bit_simps)
qed

lemma readN_eq:
  "readN n s = (take n (rxBuffer s) @ replicate (n - length (rxBuffer s)) 255,
                s\<lparr>rxBuffer := drop n (rxBuffer s)\<rparr>)"
proof (induction n arbitrary: s)
  case 0
  then show ?case by simp
next
  case (Suc n)
  show ?case
  proof (cases "rxBuffer s")
    case Nil
    then show ?thesis by (simp add: wire_read_def Suc.IH)
  next
    case (Cons x xs)
    then show ?thesis by (simp add: wire_read_def Suc.IH)
  qed
qed

lemma readInto_fits:
  "off + n \<le> length buf \<Longrightarrow>
   readInto n buf off s =
     Inr (take off buf @ fst (readN n s) @ drop (off + n) buf, snd (readN n s))"
proof (induction n arbitrary: buf off s)
  case 0
  then show ?case by simp
next
  case (Suc n)
  obtain x s1 where w: "wire_read s = (x, s1)" by (cases "wire_read s")
  obtain xs s2 where r: "readN n s1 = (xs, s2)" by (cases "readN n s1")
  have off: "off < length buf" using Suc.prems by simp
  have "Suc off + n \<le> length (buf[off := x])" using Suc.prems by simp
  from Suc.IH[OF this, of s1]
  have "readInto n (buf[off := x]) (Suc off) s1 =
        Inr (take (Suc off) (buf[off := x]) @ xs @ drop (Suc off + n) (buf[off := x]), s2)"
    by (simp add: r)
  moreover have "take (Suc off) (buf[off := x]) = take off buf @ [x]"
    using off by (simp add: take_Suc_conv_app_nth)
  moreover have "drop (Suc off + n) (buf[off := x]) = drop (Suc off + n) buf"
    by simp
  ultimately show ?case using off w r by simp
qed

lemma readInto_overrun:
  "0 < n \<Longrightarrow> length buf < off + n \<Longrightarrow> readInto n buf off s = Inl BufferOverrun"
proof (induction n arbitrary: buf off s)
  case 0
  then show ?case by simp
next
  case (Suc n)
  show ?case
  proof (cases "off < length buf")
    case True
    then have n: "0 < n" using Suc.prems by simp
    have "length (buf[off := x]) < Suc off + n" for x using Suc.prems by simp
    from Suc.IH[OF n this] show ?thesis using True by (simp split: prod.splits)
  next
    case False
    then show ?thesis by (simp split: prod.splits)
  qed
qed

lemma compareBytes_eq:
  "n \<le> length a \<Longrightarrow> n \<le> length b \<Longrightarrow> compareBytes a b n = Inr (take n a = take n b)"
proof (induction n arbitrary: a b)
  case 0
  then show ?case by simp
next
  case (Suc n)
  then obtain x xs y ys where "a = x # xs" "b = y # ys"
    by (cases a; cases b) auto
  with Suc show ?case by auto
qed

lemma writeFrom_eq:
  "n \<le> length ptr \<Longrightarrow> length (txBuffer s) + n \<le> wireCapacity b \<Longrightarrow>
   writeFrom b n ptr s = Inr (s\<lparr>txBuffer := txBuffer s @ take n ptr\<rparr>)"
proof (induction n arbitrary: ptr s)
  case 0
  then show ?case by simp
next
  case (Suc n)
  then obtain x xs where ptr: "ptr = x # xs" by (cases ptr) auto
  have "writeFrom b n xs (wire_write b x s) =
        Inr ((wire_write b x s)\<lparr>txBuffer := txBuffer (wire_write b x s) @ take n xs\<rparr>)"
    using Suc.prems ptr by (intro Suc.IH) (simp_all add: wire_write_def)
  then show ?case using Suc.prems ptr by (simp add: wire_write_def)
qed

lemma length_stored: "length (stored m a n) = n"
  by (simp add: stored_def)

lemma wireCapacity_ge: "32 \<le> wireCapacity b"
  by (cases b) (simp_all add: wireCapacity_def)

lemma readBytes_ready:
  assumes "\<not> busy s" "unat nB \<le> wireCapacity b" "off + unat nB \<le> length buf"
  shows "readBytes e b a buf off nB s =
           Inr (take off buf @ stored (mem s) a (unat nB) @ drop (off + unat nB) buf,
                afterRead a (unat nB) s)"
proof -
  let ?s4 = "snd (endTransmission e (wire_write b (loByte a)
                (wire_write b (hiByte a) (beginTransmission (I2CAddress s) s))))"
  have s4: "?s4 = s\<lparr>txAddress := I2CAddress s, txBuffer := [hiByte a, loByte a],
                    pointer := a, ends := Suc (ends s),
                    trace := trace s @ [Transmit (I2CAddress s) [hiByte a, loByte a] 0]\<rparr>"
    using assms(1) wireCapacity_ge[of b]
    by (simp add: endTransmission_def wire_write_def beginTransmission_def deviceReceive_def
        wordAddress_bytes)
  let ?s5 = "requestFrom b (I2CAddress s) nB ?s4"
  have s5: "?s5 = (afterRead a (unat nB) s)\<lparr>rxBuffer := stored (mem s) a (unat nB)\<rparr>"
    using assms(1,2) by (simp add: s4 requestFrom_def afterRead_def stored_def min_def)
  have "readN (unat nB) ?s5 = (stored (mem s) a (unat nB), afterRead a (unat nB) s)"
    by (simp add: readN_eq s5 length_stored afterRead_def)
  then show ?thesis
    unfolding readBytes_def using readInto_fits[OF assms(3), of ?s5] by simp
qed

lemma writeBytes_ready:
  assumes "\<not> busy s" "0 < unat nB" "unat nB \<le> length ptr" "2 + unat nB \<le> wireCapacity b"
  shows "writeBytes e b a ptr nB s = Inr (afterWrite a (take (unat nB) ptr) s)"
proof -
  let ?s2 = "wire_write b (loByte a) (wire_write b (hiByte a) (beginTransmission (I2CAddress s) s))"
  have s2: "?s2 = s\<lparr>txAddress := I2CAddress s, txBuffer := [hiByte a, loByte a]\<rparr>"
    using wireCapacity_ge[of b] by (simp add: wire_write_def beginTransmission_def)
  have "writeFrom b (unat nB) ptr ?s2 = Inr (?s2\<lparr>txBuffer := txBuffer ?s2 @ take (unat nB) ptr\<rparr>)"
    using assms(3,4) by (intro writeFrom_eq) (simp_all add: s2)
  moreover have "take (unat nB) ptr \<noteq> []" using assms(2,3) by auto
  ultimately show ?thesis
    unfolding writeBytes_def using assms(1)
    by (simp add: s2 endTransmission_def deviceReceive_def wordAddress_bytes afterWrite_def)
qed
section \<open>The loop of put\<close>

subsection \<open>The chunk size\<close>

lemma unat_nbytes:
  "unat (nbytes b a r) =
     min (min (unat (pageSize b) - 2) (unat (pageSize b) - unat a mod unat (pageSize b))) (unat r)"
  by (simp add: nbytes_def Let_def word_less_nat_alt unat_putSize unat_remainingPageSize min_def)

lemma nbytes_pos: "r \<noteq> 0 \<Longrightarrow> 0 < unat (nbytes b a r)"
proof -
  assume "r \<noteq> 0"
  then have "0 < unat r" by (simp add: unat_gt_0)
  moreover have "unat a mod unat (pageSize b) < unat (pageSize b)"
    by (cases b) (simp_all add: unat_pageSize)
  moreover have "2 < unat (pageSize b)" by (cases b) (simp_all add: unat_pageSize)
  ultimately show ?thesis by (simp add: unat_nbytes)
qed

lemma nbytes_le: "unat (nbytes b a r) \<le> unat r"
  by (simp add: unat_nbytes)

lemma nbytes_le_putSize: "unat (nbytes b a r) \<le> unat (pageSize b) - 2"
  by (simp add: unat_nbytes)

lemma nbytes_le_62: "unat (nbytes b a r) \<le> 62"
  using nbytes_le_putSize[of b a r] by (cases b) (simp_all add: unat_pageSize)

lemma nbytes_fits_wire: "2 + unat (nbytes b a r) \<le> wireCapacity b"
  using nbytes_le_putSize[of b a r] by (cases b) (simp_all add: unat_pageSize wireCapacity_def)

lemma unat_sub_nbytes: "unat (r - nbytes b a r) = unat r - unat (nbytes b a r)"
  by (rule unat_sub) (simp add: word_le_nat_alt nbytes_le)

lemma unat_ucast_small: "unat w < 256 \<Longrightarrow> unat (ucast w :: uint8) = unat w" for w :: uint16
  by (simp add: unsigned_ucast_eq take_bit_nat_eq_self)

lemma unat_ucast_nbytes: "unat (ucast (nbytes b a r) :: uint8) = unat (nbytes b a r)"
  using nbytes_le_62[of b a r] by (simp add: unat_ucast_small)

lemma put_loop_iter:
  assumes "r \<noteq> 0" "length (readBuffer s) = 64" "unat r \<le> length ptr"
  shows "put_loop e b a ptr r s =
     (case ackPolling e b s of
        None \<Rightarrow> None
      | Some (ok, s1) \<Rightarrow>
          if \<not> ok then Some (Inr s1)
          else if take (unat (nbytes b a r)) ptr = stored (mem s1) a (unat (nbytes b a r))
          then put_loop e b (a + nbytes b a r) (drop (unat (nbytes b a r)) ptr)
                 (r - nbytes b a r) (chunkRead a (unat (nbytes b a r)) s1)
          else (case ackPolling e b
                       (afterWrite a (take (unat (nbytes b a r)) ptr)
                          (chunkRead a (unat (nbytes b a r)) s1)) of
                  None \<Rightarrow> None
                | Some (settled, s4) \<Rightarrow>
                    put_loop e b (a + nbytes b a r) (drop (unat (nbytes b a r)) ptr)
                      (r - nbytes b a r) s4))"
proof (cases "ackPolling e b s")
  case None
  then show ?thesis using assms(1) by (subst put_loop.simps) (simp add: word_gt_0)
next
  case (Some p)
  obtain ok s1 where p: "p = (ok, s1)" by (cases p)
  show ?thesis
  proof (cases ok)
    case False
    then show ?thesis using assms(1) Some p by (subst put_loop.simps) (simp add: word_gt_0)
  next
    case True
    let ?n = "unat (nbytes b a r)"
    note post = ackPolling_post[OF Some[unfolded p]]
    have ready: "\<not> busy s1" using post(8) True by simp
    have rb: "length (readBuffer s1) = 64" using post(3) assms(2) by simp
    have n64: "?n \<le> 64" using nbytes_le_62[of b a r] by simp
    have nptr: "?n \<le> length ptr" using nbytes_le[of b a r] assms(3) by simp
    have rd: "readBytes e b a (readBuffer s1) 0 (ucast (nbytes b a r)) s1 =
               Inr (stored (mem s1) a ?n @ drop ?n (readBuffer s1), afterRead a ?n s1)"
      using readBytes_ready[of s1 "ucast (nbytes b a r)" b 0 "readBuffer s1" e a]
        ready rb n64 nbytes_fits_wire[of b a r]
      by (simp add: unat_ucast_nbytes)
    have cmp: "compareBytes (stored (mem s1) a ?n @ drop ?n (readBuffer s1)) ptr ?n =
               Inr (stored (mem s1) a ?n = take ?n ptr)"
      using nptr rb n64 by (subst compareBytes_eq) (simp_all add: length_stored)
    have s2: "(afterRead a ?n s1)\<lparr>readBuffer := stored (mem s1) a ?n @ drop ?n (readBuffer s1)\<rparr>
              = chunkRead a ?n s1" by (simp add: chunkRead_def)
    have wr: "writeBytes e b a ptr (ucast (nbytes b a r)) (chunkRead a ?n s1) =
              Inr (afterWrite a (take ?n ptr) (chunkRead a ?n s1))"
      using writeBytes_ready[of "chunkRead a ?n s1" "ucast (nbytes b a r)" ptr b e a]
        ready nbytes_pos[OF assms(1), of b a] nptr nbytes_fits_wire[of b a r]
      by (simp add: unat_ucast_nbytes chunkRead_def afterRead_def)
    show ?thesis
      using assms(1) Some p True
      by (subst put_loop.simps)
         (simp add: word_gt_0 rd cmp s2 wr unat_ucast_nbytes eq_commute[of "stored _ _ _"])
  qed
qed

subsection \<open>Every run of the loop is a run of \<open>put_run\<close>\<close>

lemma put_loop_run:
  assumes "ticking e"
  shows "length (readBuffer s) = 64 \<Longrightarrow> unat r \<le> length ptr \<Longrightarrow>
     \<exists>s' evs. put_loop e b a ptr r s = Some (Inr s') \<and> trace s' = trace s @ evs \<and>
        put_run b (I2CAddress s) (mem s) a ptr r evs (mem s') \<and>
        length (readBuffer s') = 64 \<and> I2CAddress s' = I2CAddress s \<and>
        EEPROMStatus s' = EEPROMStatus s"
proof (induction "unat r" arbitrary: a ptr r s rule: less_induct)
  case less
  show ?case
  proof (cases "r = 0")
    case True
    have "put_loop e b a ptr r s = Some (Inr s)" using True by (subst put_loop.simps) simp
    moreover have "put_run b (I2CAddress s) (mem s) a ptr r [] (mem s)"
      using True by (simp add: put_run.finished)
    ultimately show ?thesis using less.prems(1) by force
  next
    case False
    let ?nb = "nbytes b a r"
    let ?n = "unat ?nb"
    note iter = put_loop_iter[OF False less.prems, of e b a]
    from ticking_returns[OF assms] obtain ok s1 where poll: "ackPolling e b s = Some (ok, s1)"
      by blast
    note post = ackPolling_post[OF poll]
    from post(7) obtain sts where
      sts: "trace s1 = trace s @ polled (I2CAddress s) sts @ [Polled ok]" by blast
    show ?thesis
    proof (cases ok)
      case no: False
      have "put_loop e b a ptr r s = Some (Inr s1)" using iter poll no by simp
      moreover have "put_run b (I2CAddress s) (mem s) a ptr r
                       (polled (I2CAddress s) sts @ [Polled False]) (mem s1)"
        using False post(5) by (simp add: put_run.aborted)
      moreover have "trace s1 = trace s @ (polled (I2CAddress s) sts @ [Polled False])"
        using sts no by simp
      moreover have "length (readBuffer s1) = 64" using post(3) less.prems(1) by simp
      ultimately show ?thesis using post(1,2) by blast
    next
      case yes: True
      have smaller: "unat (r - ?nb) < unat r"
        using nbytes_pos[OF False, of b a] nbytes_le[of b a r] by (simp add: unat_sub_nbytes)
      have fits: "unat (r - ?nb) \<le> length (drop ?n ptr)"
        using less.prems(2) by (simp add: unat_sub_nbytes)
      let ?s2 = "chunkRead a ?n s1"
      have s2: "length (readBuffer ?s2) = 64" "I2CAddress ?s2 = I2CAddress s"
        "mem ?s2 = mem s" "EEPROMStatus ?s2 = EEPROMStatus s"
        "trace ?s2 = trace s @ polled (I2CAddress s) sts
           @ [Polled True, Transmit (I2CAddress s) [hiByte a, loByte a] 0,
              Request (I2CAddress s) ?n]"
        using post(1,2,3,5) less.prems(1) nbytes_le_62[of b a r] sts yes
        by (simp_all add: chunkRead_def afterRead_def length_stored)
      show ?thesis
      proof (cases "take ?n ptr = stored (mem s) a ?n")
        case same: True
        from less.hyps[OF smaller s2(1) fits, of "a + ?nb"]
        obtain s' rest where rec: "put_loop e b (a + ?nb) (drop ?n ptr) (r - ?nb) ?s2 = Some (Inr s')"
          "trace s' = trace ?s2 @ rest"
          "put_run b (I2CAddress ?s2) (mem ?s2) (a + ?nb) (drop ?n ptr) (r - ?nb) rest (mem s')"
          "length (readBuffer s') = 64" "I2CAddress s' = I2CAddress ?s2"
          "EEPROMStatus s' = EEPROMStatus ?s2"
          by blast
        have "put_loop e b a ptr r s = Some (Inr s')"
          using iter poll yes same rec(1) post(5) by simp
        moreover have "put_run b (I2CAddress s) (mem s) a ptr r
            (polled (I2CAddress s) sts
              @ [Polled True, Transmit (I2CAddress s) [hiByte a, loByte a] 0,
                 Request (I2CAddress s) ?n] @ rest) (mem s')"
          using False same rec(3) s2(2,3) by (intro put_run.unchanged) simp_all
        moreover have "trace s' = trace s @ (polled (I2CAddress s) sts
              @ [Polled True, Transmit (I2CAddress s) [hiByte a, loByte a] 0,
                 Request (I2CAddress s) ?n] @ rest)"
          using rec(2) s2(5) by simp
        moreover have "I2CAddress s' = I2CAddress s" "EEPROMStatus s' = EEPROMStatus s"
          using rec(5,6) s2(2,4) by simp_all
        ultimately show ?thesis using rec(4) by blast
      next
        case differ: False
        let ?s3 = "afterWrite a (take ?n ptr) ?s2"
        from ticking_returns[OF assms] obtain settled s4 where
          poll2: "ackPolling e b ?s3 = Some (settled, s4)" by blast
        note post2 = ackPolling_post[OF poll2]
        from post2(7) obtain sts' where
          sts': "trace s4 = trace ?s3 @ polled (I2CAddress ?s3) sts' @ [Polled settled]" by blast
        have s3: "I2CAddress ?s3 = I2CAddress s"
          "mem ?s3 = storeBytes (mem s) a (take ?n ptr)"
          "trace ?s3 = trace ?s2 @ [Transmit (I2CAddress s) (hiByte a # loByte a # take ?n ptr) 0]"
          "readBuffer ?s3 = readBuffer ?s2" "EEPROMStatus ?s3 = EEPROMStatus s"
          using s2(2,3,4) by (simp_all add: afterWrite_def)
        have s4: "length (readBuffer s4) = 64" "I2CAddress s4 = I2CAddress s"
          "mem s4 = storeBytes (mem s) a (take ?n ptr)" "EEPROMStatus s4 = EEPROMStatus s"
          using post2(1,2,3,5) s3 s2(1) by simp_all
        from less.hyps[OF smaller s4(1) fits, of "a + ?nb"]
        obtain s' rest where rec: "put_loop e b (a + ?nb) (drop ?n ptr) (r - ?nb) s4 = Some (Inr s')"
          "trace s' = trace s4 @ rest"
          "put_run b (I2CAddress s4) (mem s4) (a + ?nb) (drop ?n ptr) (r - ?nb) rest (mem s')"
          "length (readBuffer s') = 64" "I2CAddress s' = I2CAddress s4"
          "EEPROMStatus s' = EEPROMStatus s4"
          by blast
        have "put_loop e b a ptr r s = Some (Inr s')"
          using iter poll yes differ rec(1) post(5) poll2 by simp
        moreover have "put_run b (I2CAddress s) (mem s) a ptr r
            (polled (I2CAddress s) sts
              @ [Polled True, Transmit (I2CAddress s) [hiByte a, loByte a] 0,
                 Request (I2CAddress s) ?n,
                 Transmit (I2CAddress s) (hiByte a # loByte a # take ?n ptr) 0]
              @ polled (I2CAddress s) sts' @ [Polled settled] @ rest) (mem s')"
          using False differ rec(3) s4(2,3) by (intro put_run.written) simp_all
        moreover have "trace s' = trace s @ (polled (I2CAddress s) sts
              @ [Polled True, Transmit (I2CAddress s) [hiByte a, loByte a] 0,
                 Request (I2CAddress s) ?n,
                 Transmit (I2CAddress s) (hiByte a # loByte a # take ?n ptr) 0]
              @ polled (I2CAddress s) sts' @ [Polled settled] @ rest)"
          using rec(2) sts' s3(1,3) s2(5) by simp
        moreover have "I2CAddress s' = I2CAddress s" "EEPROMStatus s' = EEPROMStatus s"
          using rec(5,6) s4(2,4) by simp_all
        ultimately show ?thesis using rec(4) by blast
      qed
    qed
  qed
qed

subsection \<open>Properties of the runs\<close>

lemma writes_append: "writes (xs @ ys) = writes xs @ writes ys"
  by (induction xs rule: writes.induct) simp_all

lemma requests_append: "requests (xs @ ys) = requests xs @ requests ys"
  by (induction xs rule: requests.induct) simp_all

lemma writes_polled: "writes (polled i sts) = []"
  by (induction sts) (simp_all add: polled_def)

lemma requests_polled: "requests (polled i sts) = []"
  by (induction sts) (simp_all add: polled_def)

lemma unat_nbytes_chunk:
  "unat (nbytes b a r) = chunk (unat (pageSize b)) (unat a) (unat r)"
  by (simp add: unat_nbytes chunk_def bytes_to_page_boundary_def)

lemma chunk_within_page:
  assumes "0 < d" "d \<le> bytes_to_page_boundary p c" "0 < p"
  shows "c div p = (c + d - 1) div p"
proof -
  have "c mod p + (d - 1) < p" using assms by (simp add: bytes_to_page_boundary_def) 
  moreover have "c + d - 1 = c div p * p + (c mod p + (d - 1))" using assms(1) by simp
  ultimately show ?thesis
    by (metis add.commute div_mult_self1 div_less add_0 assms(3) less_numeral_extra(3) mult.commute)
qed

lemma put_run_writes:
  assumes "put_run b i m a ptr r evs m'" "unat r \<le> length ptr"
  shows "\<forall>(c, data) \<in> set (writes evs).
           length data = chunk (unat (pageSize b)) (unat c) (unat (r - (c - a)))"
  using assms
proof (induction rule: put_run.induct)
  case (finished m a ptr)
  then show ?case by simp
next
  case (aborted r m a ptr sts)
  then show ?case by (simp add: writes_append writes_polled)
next
  case (unchanged r n a ptr m rest m' sts)
  have "unat (r - nbytes b a r) \<le> length (drop n ptr)"
    using unchanged.prems unchanged.hyps(2) by (simp add: unat_sub_nbytes)
  from unchanged.IH[OF this] show ?case
    by (auto simp add: writes_append writes_polled algebra_simps)
next
  case (written r n a ptr m rest m' sts sts' settled)
  have "unat (r - nbytes b a r) \<le> length (drop n ptr)"
    using written.prems written.hyps(2) by (simp add: unat_sub_nbytes)
  note ih = written.IH[OF this]
  have n: "n \<le> length ptr" using written.prems written.hyps(2) nbytes_le[of b a r] by simp
  have "take n ptr \<noteq> []" using written.hyps(1,2) nbytes_pos[of r b a] n by auto
  then obtain x xs where x: "take n ptr = x # xs" by (cases "take n ptr") auto
  have len: "length (x # xs) = n" using n x[symmetric] by simp
  have "writes (polled i sts @ [Polled True, Transmit i [hiByte a, loByte a] 0, Request i n,
                       Transmit i (hiByte a # loByte a # take n ptr) 0]
          @ polled i sts' @ [Polled settled] @ rest) = (a, x # xs) # writes rest"
    by (simp add: writes_append writes_polled x wordAddress_bytes)
  moreover have "length (x # xs) = chunk (unat (pageSize b)) (unat a) (unat (r - (a - a)))"
    using len written.hyps(2) by (simp add: unat_nbytes_chunk)
  ultimately show ?case using ih by (auto simp add: algebra_simps)
qed

lemma put_run_requests:
  assumes "put_run b i m a ptr r evs m'"
  shows "\<forall>n \<in> set (requests evs). n \<le> unat (pageSize b) - 2"
  using assms
proof (induction rule: put_run.induct)
  case (finished m a ptr)
  then show ?case by simp
next
  case (aborted r m a ptr sts)
  then show ?case by (simp add: requests_append requests_polled)
next
  case (unchanged r n a ptr m rest m' sts)
  then show ?case using nbytes_le_putSize[of b a r]
    by (auto simp add: requests_append requests_polled)
next
  case (written r n a ptr m rest m' sts sts' settled)
  then show ?case using nbytes_le_putSize[of b a r]
    by (auto simp add: requests_append requests_polled)
qed

lemma stored_take: "n \<le> k \<Longrightarrow> take n (stored m a k) = stored m a n"
  by (simp add: stored_def take_map)

lemma stored_drop: "drop n (stored m a k) = stored m (a + of_nat n) (k - n)"
proof (cases "n \<le> k")
  case True
  have "drop n (stored m a k) = map (\<lambda>j. m (a + of_nat j)) [n..<k]"
    by (simp add: stored_def drop_map)
  also have "[n..<k] = map (\<lambda>j. j + n) [0..<k - n]"
    using True by (simp add: map_add_upt)
  also have "map (\<lambda>j. m (a + of_nat j)) (map (\<lambda>j. j + n) [0..<k - n])
             = stored m (a + of_nat n) (k - n)"
    by (simp add: stored_def algebra_simps)
  finally show ?thesis .
next
  case False
  then show ?thesis by (simp add: stored_def)
qed

lemma put_run_suppressed:
  assumes "put_run b i m a ptr r evs m'" "unat r \<le> length ptr"
    "stored m a (unat r) = take (unat r) ptr"
  shows "writes evs = [] \<and> m' = m"
  using assms
proof (induction rule: put_run.induct)
  case (finished m a ptr)
  then show ?case by simp
next
  case (aborted r m a ptr sts)
  then show ?case by (simp add: writes_append writes_polled)
next
  case (unchanged r n a ptr m rest m' sts)
  have fits: "unat (r - nbytes b a r) \<le> length (drop n ptr)"
    using unchanged.prems(1) unchanged.hyps(2) by (simp add: unat_sub_nbytes)
  have "drop n (stored m a (unat r)) = drop n (take (unat r) ptr)"
    using unchanged.prems(2) by simp
  then have "stored m (a + nbytes b a r) (unat (r - nbytes b a r))
             = take (unat (r - nbytes b a r)) (drop n ptr)"
    using unchanged.hyps(2) by (simp add: stored_drop drop_take unat_sub_nbytes)
  from unchanged.IH[OF fits this] show ?case
    by (simp add: writes_append writes_polled)
next
  case (written r n a ptr m rest m' sts sts' settled)
  have "take n (stored m a (unat r)) = take n (take (unat r) ptr)"
    using written.prems(2) by simp
  then have "stored m a n = take n ptr"
    using written.hyps(2) nbytes_le[of b a r] by (simp add: stored_take min_def)
  with written.hyps(3) show ?case by simp
qed

lemma put_run_guarded:
  assumes "put_run b i m a ptr r evs m'" "unat r \<le> length ptr"
  shows "\<forall>(c, data) \<in> set (writes evs).
           \<exists>pre post. evs = pre @ [Transmit i [hiByte c, loByte c] 0, Request i (length data),
                                   Transmit i (hiByte c # loByte c # data) 0] @ post"
  using assms
proof (induction rule: put_run.induct)
  case (finished m a ptr)
  then show ?case by simp
next
  case (aborted r m a ptr sts)
  then show ?case by (simp add: writes_append writes_polled)
next
  case (unchanged r n a ptr m rest m' sts)
  have fits: "unat (r - nbytes b a r) \<le> length (drop n ptr)"
    using unchanged.prems(1) unchanged.hyps(2) by (simp add: unat_sub_nbytes)
  note ih = unchanged.IH[OF fits]
  let ?head = "polled i sts @ [Polled True, Transmit i [hiByte a, loByte a] 0, Request i n]"
  let ?evs = "polled i sts @ [Polled True, Transmit i [hiByte a, loByte a] 0, Request i n] @ rest"
  have w: "writes ?evs = writes rest" by (simp add: writes_append writes_polled)
  show ?case
  proof (clarify)
    fix c data
    assume "(c, data) \<in> set (writes ?evs)"
    then have mem: "(c, data) \<in> set (writes rest)" using w by simp
    from bspec[OF ih mem, unfolded prod.case] obtain pre post where
      "rest = pre @ [Transmit i [hiByte c, loByte c] 0, Request i (length data),
                     Transmit i (hiByte c # loByte c # data) 0] @ post" by (elim exE)
    then have "?evs = (?head @ pre) @ [Transmit i [hiByte c, loByte c] 0,
                 Request i (length data), Transmit i (hiByte c # loByte c # data) 0] @ post"
      by simp
    then show "\<exists>pre post. ?evs
        = pre @ [Transmit i [hiByte c, loByte c] 0, Request i (length data),
                 Transmit i (hiByte c # loByte c # data) 0] @ post"
      by (intro exI)
  qed
next
  case (written r n a ptr m rest m' sts sts' settled)
  have fits: "unat (r - nbytes b a r) \<le> length (drop n ptr)"
    using written.prems(1) written.hyps(2) by (simp add: unat_sub_nbytes)
  note ih = written.IH[OF fits]
  have n: "n \<le> length ptr" using written.prems written.hyps(2) nbytes_le[of b a r] by simp
  have "take n ptr \<noteq> []" using written.hyps(1,2) nbytes_pos[of r b a] n by auto
  then obtain x xs where x: "take n ptr = x # xs" by (cases "take n ptr") auto
  have len: "length (x # xs) = n" using n x[symmetric] by simp
  let ?triple = "[Transmit i [hiByte a, loByte a] 0, Request i n,
                  Transmit i (hiByte a # loByte a # take n ptr) 0]"
  let ?head = "polled i sts @ [Polled True]"
  let ?mid = "polled i sts' @ [Polled settled]"
  let ?evs = "polled i sts @ [Polled True, Transmit i [hiByte a, loByte a] 0, Request i n,
                       Transmit i (hiByte a # loByte a # take n ptr) 0]
          @ polled i sts' @ [Polled settled] @ rest"
  have w: "writes ?evs = (a, x # xs) # writes rest"
    by (simp add: writes_append writes_polled x wordAddress_bytes)
  show ?case
  proof (clarify)
    fix c data
    assume "(c, data) \<in> set (writes ?evs)"
    then have "(c, data) = (a, x # xs) \<or> (c, data) \<in> set (writes rest)"
      unfolding w by simp
    then show "\<exists>pre post. ?evs
        = pre @ [Transmit i [hiByte c, loByte c] 0, Request i (length data),
                 Transmit i (hiByte c # loByte c # data) 0] @ post"
    proof
      assume "(c, data) = (a, x # xs)"
      then have "?evs = ?head @ [Transmit i [hiByte c, loByte c] 0, Request i (length data),
                 Transmit i (hiByte c # loByte c # data) 0] @ (?mid @ rest)"
        using len x by simp
      then show ?thesis by (intro exI)
    next
      assume mem: "(c, data) \<in> set (writes rest)"
      from bspec[OF ih mem, unfolded prod.case] obtain pre post where
        "rest = pre @ [Transmit i [hiByte c, loByte c] 0, Request i (length data),
                       Transmit i (hiByte c # loByte c # data) 0] @ post" by (elim exE)
      then have "?evs = (?head @ ?triple @ ?mid @ pre) @ [Transmit i [hiByte c, loByte c] 0,
                   Request i (length data), Transmit i (hiByte c # loByte c # data) 0] @ post"
        by simp
      then show ?thesis by (intro exI)
    qed
  qed
qed

lemma unat_size_le: "unat (sizeof t) \<le> length t"
  by (simp add: sizeof_def unat_of_nat)

lemma put_run_of_put:
  assumes "ticking e" "length (readBuffer s) = 64"
  shows "\<exists>s'. put e b a t s = Some (Inr (t, s')) \<and>
           put_run b (I2CAddress s) (mem s) a t (sizeof t) (events_since s s') (mem s') \<and>
           length (readBuffer s') = 64 \<and> I2CAddress s' = I2CAddress s"
proof -
  from put_loop_run[OF assms unat_size_le, of b a t]
  obtain s' evs where r: "put_loop e b a t (sizeof t) s = Some (Inr s')"
    "trace s' = trace s @ evs"
    "put_run b (I2CAddress s) (mem s) a t (sizeof t) evs (mem s')"
    "length (readBuffer s') = 64" "I2CAddress s' = I2CAddress s" by blast
  have "events_since s s' = evs" using r(2) by (rule events_since_append)
  moreover have "put e b a t s = Some (Inr (t, s'))" using r(1) by (simp add: put_def)
  ultimately show ?thesis using r(3,4,5) by blast
qed

lemma ticking_prompt: "ticking prompt"
  unfolding ticking_def
proof
  fix t
  have "clock prompt (t + Suc 60) - clock prompt t = 6100"
    by (simp add: prompt_def algebra_simps)
  then show "\<exists>k. 6000 \<le> clock prompt (t + Suc k) - clock prompt t"
    by (intro exI[of _ 60]) simp
qed

lemma writes_nonempty: "(c, data) \<in> set (writes evs) \<Longrightarrow> data \<noteq> []"
  by (induction evs rule: writes.induct) auto

lemma chunk_le: "chunk p c r \<le> p - 2" "chunk p c r \<le> bytes_to_page_boundary p c"
  by (simp_all add: chunk_def)

lemma pageSize_pos: "0 < unat (pageSize b)"
  by (cases b) (simp_all add: unat_pageSize)


subsection \<open>The specification's concrete scenario\<close>

lemma blank_readBuffer: "length (readBuffer blank) = 64"
  by (simp add: blank_def)

lemma put_loop_done: "put_loop e b a ptr 0 s = Some (Inr s)"
  by (subst put_loop.simps) simp

lemmas poll_defs = ackPolling_def ackPolling_loop.simps micros_def endTransmission_def
  wire_write_def beginTransmission_def wireCapacity_def deviceReceive_def

lemmas chunk_defs = nbytes_def remainingPageSize_def putSize_def pageSize_def Let_def
  stored_def chunkRead_def afterRead_def afterWrite_def hiByte_def loByte_def
  nextInPage_def upt_rec

lemma scenario:
  "\<exists>s'. put prompt AVR 30 [1, 2, 3, 4, 5, 6, 7, 8] blank
           = Some (Inr ([1, 2, 3, 4, 5, 6, 7, 8], s')) \<and>
        events_since blank s' =
          [Transmit 80 [0] 0, Polled True, Transmit 80 [0, 30] 0, Request 80 2,
           Transmit 80 [0, 30, 1, 2] 0, Transmit 80 [0] 0, Polled True,
           Transmit 80 [0] 0, Polled True, Transmit 80 [0, 32] 0, Request 80 6,
           Transmit 80 [0, 32, 3, 4, 5, 6, 7, 8] 0, Transmit 80 [0] 0, Polled True]"
  by (simp add: put_def sizeof_def put_loop_iter put_loop_done poll_defs chunk_defs prompt_def
      blank_def events_since_def)

lemma ticking_deaf: "ticking deaf"
  unfolding ticking_def
proof
  fix t
  have "clock deaf (t + Suc 2) - clock deaf t = 7500"
    by (simp add: deaf_def algebra_simps)
  then show "\<exists>k. 6000 \<le> clock deaf (t + Suc k) - clock deaf t"
    by (intro exI[of _ 2]) simp
qed

subsection \<open>What a run stores in the EEPROM\<close>

lemma nextInPage_succ:
  assumes "unat a mod 64 < 63"
  shows "nextInPage a = a + 1"
proof -
  have m: "unat (a mod 64) = unat a mod 64" by (simp add: unat_mod)
  have "unat (a mod 64 + 1) = unat a mod 64 + 1"
    using assms by (simp add: unat_word_ariths m)
  then have "unat ((a mod 64 + 1) mod 64) = unat (a mod 64 + 1)"
    using assms by (simp add: unat_mod)
  then have "(a mod 64 + 1) mod 64 = a mod 64 + 1" by (simp add: word_unat_eq_iff)
  then show ?thesis by (simp add: nextInPage_def)
qed

lemma unat_succ_mod:
  fixes a :: uint16
  assumes "unat a mod 64 < 63"
  shows "unat (a + 1) mod 64 = unat a mod 64 + 1"
proof -
  have "unat a < 65535"
  proof (rule ccontr)
    assume "\<not> unat a < 65535"
    moreover have "unat a < 65536" using unsigned_less[of a, where ?'a = nat] by simp
    ultimately have "unat a = 65535" by simp
    with assms show False by simp
  qed
  then have "unat (a + 1) = unat a + 1" by (simp add: unat_word_ariths)
  then show ?thesis using assms by (simp add: mod_Suc)
qed

lemma of_nat_inj_16:
  assumes "j < 65536" "k < 65536" "a + of_nat j = a + (of_nat k :: uint16)"
  shows "j = k"
proof -
  from assms(3) have "(of_nat j :: uint16) = of_nat k" by simp
  then have "unat (of_nat j :: uint16) = unat (of_nat k :: uint16)" by simp
  then show ?thesis using assms(1,2) by (simp add: unat_of_nat)
qed

lemma storeBytes_outside:
  "unat a mod 64 + length xs \<le> 64 \<Longrightarrow> \<forall>k < length xs. x \<noteq> a + of_nat k \<Longrightarrow>
   storeBytes m a xs x = m x"
proof (induction xs arbitrary: m a)
  case Nil
  then show ?case by simp
next
  case (Cons y ys)
  have xa: "x \<noteq> a" using Cons.prems(2) by (auto dest: spec[of _ 0])
  show ?case
  proof (cases ys)
    case Nil
    then show ?thesis using xa by simp
  next
    case (Cons z zs)
    then have lt: "unat a mod 64 < 63" using Cons.prems(1) by simp
    have nx: "nextInPage a = a + 1" using lt by (rule nextInPage_succ)
    have "unat (a + 1) mod 64 + length ys \<le> 64"
      using Cons.prems(1) unat_succ_mod[OF lt] by simp
    moreover have "\<forall>k < length ys. x \<noteq> (a + 1) + of_nat k"
    proof (intro allI impI)
      fix k assume "k < length ys"
      then have "x \<noteq> a + of_nat (Suc k)" using Cons.prems(2)[rule_format, of "Suc k"] by simp
      then show "x \<noteq> (a + 1) + of_nat k" by (simp add: algebra_simps)
    qed
    ultimately have "storeBytes (m(a := y)) (a + 1) ys x = (m(a := y)) x"
      by (rule Cons.IH)
    then show ?thesis using xa nx by simp
  qed
qed

lemma storeBytes_inside:
  "unat a mod 64 + length xs \<le> 64 \<Longrightarrow> k < length xs \<Longrightarrow>
   storeBytes m a xs (a + of_nat k) = xs ! k"
proof (induction xs arbitrary: m a k)
  case Nil
  then show ?case by simp
next
  case (Cons y ys)
  show ?case
  proof (cases ys)
    case Nil
    then show ?thesis using Cons.prems by simp
  next
    case (Cons z zs)
    then have lt: "unat a mod 64 < 63" using Cons.prems(1) by simp
    have nx: "nextInPage a = a + 1" using lt by (rule nextInPage_succ)
    have fit: "unat (a + 1) mod 64 + length ys \<le> 64"
      using Cons.prems(1) unat_succ_mod[OF lt] by simp
    show ?thesis
    proof (cases k)
      case 0
      have "\<forall>j < length ys. a \<noteq> (a + 1) + of_nat j"
      proof (intro allI impI)
        fix j assume "j < length ys"
        then have "Suc j < 65536" using Cons.prems(1) by simp
        then have "a + of_nat 0 \<noteq> a + of_nat (Suc j)"
          using of_nat_inj_16[of 0 "Suc j" a] by auto
        then show "a \<noteq> (a + 1) + of_nat j" by (simp add: algebra_simps)
      qed
      with fit have "storeBytes (m(a := y)) (a + 1) ys a = (m(a := y)) a"
        by (rule storeBytes_outside)
      then show ?thesis using 0 nx by simp
    next
      case (Suc j)
      then have "j < length ys" using Cons.prems(2) by simp
      with fit have "storeBytes (m(a := y)) (a + 1) ys ((a + 1) + of_nat j) = ys ! j"
        by (rule Cons.IH)
      then show ?thesis using Suc nx by (simp add: algebra_simps)
    qed
  qed
qed

lemma stored_storeBytes:
  assumes "unat a mod 64 + length xs \<le> 64"
  shows "stored (storeBytes m a xs) a (length xs) = xs"
  by (rule nth_equalityI) (simp_all add: stored_def storeBytes_inside[OF assms])

lemma stored_append: "stored m a (j + k) = stored m a j @ stored m (a + of_nat j) k"
proof -
  have "stored m a (j + k) = take j (stored m a (j + k)) @ drop j (stored m a (j + k))"
    by simp
  then show ?thesis by (simp only: stored_take[of j "j + k"] stored_drop) simp
qed

lemma stored_cong:
  "(\<And>k. k < n \<Longrightarrow> m' (a + of_nat k) = m (a + of_nat k)) \<Longrightarrow> stored m' a n = stored m a n"
  by (simp add: stored_def)

lemma mod_64_le: "(x::nat) mod 64 \<le> x mod 32 + 32"
proof -
  have "x mod (32 * 2) = 32 * (x div 32 mod 2) + x mod 32" by (rule mod_mult2_eq)
  moreover have "x div 32 mod 2 \<le> 1" by simp
  ultimately show ?thesis by simp
qed

lemma chunk_in_device_page: "unat a mod 64 + unat (nbytes b a r) \<le> 64"
proof -
  have le: "unat (nbytes b a r) \<le> unat (pageSize b) - unat a mod unat (pageSize b)"
    by (simp add: unat_nbytes)
  show ?thesis
  proof (cases b)
    case AVR
    have "unat a mod 32 < 32" by simp
    moreover have "unat (nbytes b a r) \<le> 32 - unat a mod 32"
      using le AVR by (simp add: unat_pageSize)
    ultimately show ?thesis using mod_64_le[of "unat a"] by linarith
  next
    case ESP8266
    have "unat a mod 64 < 64" by simp
    moreover have "unat (nbytes b a r) \<le> 64 - unat a mod 64"
      using le ESP8266 by (simp add: unat_pageSize)
    ultimately show ?thesis by linarith
  qed
qed

lemma put_run_stores:
  assumes "put_run b i m a ptr r evs m'" "unat r \<le> length ptr"
    "Polled False \<notin> set evs" "unat a + unat r \<le> 65536"
  shows "stored m' a (unat r) = take (unat r) ptr \<and>
         (\<forall>x. (\<forall>k < unat r. x \<noteq> a + of_nat k) \<longrightarrow> m' x = m x)"
  using assms
proof (induction rule: put_run.induct)
  case (finished m a ptr)
  then show ?case by (simp add: stored_def)
next
  case (aborted r m a ptr sts)
  then show ?case by simp
next
  case (unchanged r n a ptr m rest m' sts)
  let ?nb = "nbytes b a r"
  let ?R = "unat r"
  have nR: "n \<le> ?R" using unchanged.hyps(2) nbytes_le[of b a r] by simp
  have Rlt: "?R < 65536" using unsigned_less[of r, where ?'a = nat] by simp
  have sub: "unat (r - ?nb) = ?R - n" using unchanged.hyps(2) by (simp add: unat_sub_nbytes)
  have nb: "of_nat n = ?nb" using unchanged.hyps(2) by simp
  have fits: "unat (r - ?nb) \<le> length (drop n ptr)" using unchanged.prems(1) sub by simp
  have polls: "Polled False \<notin> set rest" using unchanged.prems(2) by simp
  have room: "unat (a + ?nb) + unat (r - ?nb) \<le> 65536"
  proof (cases "unat a + n < 65536")
    case True
    then have "unat (a + ?nb) = unat a + n"
      using unchanged.hyps(2) by (simp add: unat_word_ariths)
    then show ?thesis using unchanged.prems(3) sub nR by simp
  next
    case False
    then have "?R = n" using unchanged.prems(3) nR by simp
    then have "unat (r - ?nb) = 0" using sub by simp
    moreover have "unat (a + ?nb) < 65536" using unsigned_less[of "a + ?nb", where ?'a = nat] by simp
    ultimately show ?thesis by simp
  qed
  note ih = unchanged.IH[OF fits polls room]
  have frame': "m' x = m x" if "\<forall>k < ?R - n. x \<noteq> a + ?nb + of_nat k" for x
    using ih that sub by simp
  have low: "m' (a + of_nat k) = m (a + of_nat k)" if "k < n" for k
  proof (rule frame', intro allI impI)
    fix j assume "j < ?R - n"
    then have "n + j < 65536" using Rlt by simp
    moreover have "k < 65536" using that nR Rlt by simp
    moreover have "k \<noteq> n + j" using that by simp
    ultimately have "a + of_nat k \<noteq> a + of_nat (n + j)"
      using of_nat_inj_16[of k "n + j" a] by blast
    then show "a + of_nat k \<noteq> a + ?nb + of_nat j" using nb by (simp add: algebra_simps)
  qed
  have "stored m' a ?R = stored m' a n @ stored m' (a + of_nat n) (?R - n)"
    using stored_append[of m' a n "?R - n"] nR by simp
  also have "stored m' a n = stored m a n" using low by (rule stored_cong)
  also have "stored m a n = take n ptr" using unchanged.hyps(3) by simp
  also have "stored m' (a + of_nat n) (?R - n) = take (?R - n) (drop n ptr)"
    using ih sub nb by simp
  also have "take n ptr @ take (?R - n) (drop n ptr) = take ?R ptr"
    using nR by (metis add_diff_inverse_nat not_less take_add)
  finally have one: "stored m' a ?R = take ?R ptr" .
  have two: "m' x = m x" if out: "\<forall>k < ?R. x \<noteq> a + of_nat k" for x
  proof (rule frame', intro allI impI)
    fix j assume "j < ?R - n"
    then have "n + j < ?R" by simp
    with out have "x \<noteq> a + of_nat (n + j)" by blast
    then show "x \<noteq> a + ?nb + of_nat j" using nb by (simp add: algebra_simps)
  qed
  from one two show ?case by blast
next
  case (written r n a ptr m rest m' sts sts' settled)
  let ?nb = "nbytes b a r"
  let ?R = "unat r"
  let ?m1 = "storeBytes m a (take n ptr)"
  have nR: "n \<le> ?R" using written.hyps(2) nbytes_le[of b a r] by simp
  have Rlt: "?R < 65536" using unsigned_less[of r, where ?'a = nat] by simp
  have sub: "unat (r - ?nb) = ?R - n" using written.hyps(2) by (simp add: unat_sub_nbytes)
  have nb: "of_nat n = ?nb" using written.hyps(2) by simp
  have len: "length (take n ptr) = n" using nR written.prems(1) by simp
  have page: "unat a mod 64 + length (take n ptr) \<le> 64"
    using chunk_in_device_page[of a b r] written.hyps(2) len by simp
  have fits: "unat (r - ?nb) \<le> length (drop n ptr)" using written.prems(1) sub by simp
  have polls: "Polled False \<notin> set rest" using written.prems(2) by simp
  have room: "unat (a + ?nb) + unat (r - ?nb) \<le> 65536"
  proof (cases "unat a + n < 65536")
    case True
    then have "unat (a + ?nb) = unat a + n"
      using written.hyps(2) by (simp add: unat_word_ariths)
    then show ?thesis using written.prems(3) sub nR by simp
  next
    case False
    then have "?R = n" using written.prems(3) nR by simp
    then have "unat (r - ?nb) = 0" using sub by simp
    moreover have "unat (a + ?nb) < 65536" using unsigned_less[of "a + ?nb", where ?'a = nat] by simp
    ultimately show ?thesis by simp
  qed
  note ih = written.IH[OF fits polls room]
  have frame': "m' x = ?m1 x" if "\<forall>k < ?R - n. x \<noteq> a + ?nb + of_nat k" for x
    using ih that sub by simp
  have low: "m' (a + of_nat k) = ?m1 (a + of_nat k)" if "k < n" for k
  proof (rule frame', intro allI impI)
    fix j assume "j < ?R - n"
    then have "n + j < 65536" using Rlt by simp
    moreover have "k < 65536" using that nR Rlt by simp
    moreover have "k \<noteq> n + j" using that by simp
    ultimately have "a + of_nat k \<noteq> a + of_nat (n + j)"
      using of_nat_inj_16[of k "n + j" a] by blast
    then show "a + of_nat k \<noteq> a + ?nb + of_nat j" using nb by (simp add: algebra_simps)
  qed
  have "stored m' a ?R = stored m' a n @ stored m' (a + of_nat n) (?R - n)"
    using stored_append[of m' a n "?R - n"] nR by simp
  also have "stored m' a n = stored ?m1 a n" using low by (rule stored_cong)
  also have "stored ?m1 a n = take n ptr" using stored_storeBytes[OF page, of m] len by simp
  also have "stored m' (a + of_nat n) (?R - n) = take (?R - n) (drop n ptr)"
    using ih sub nb by simp
  also have "take n ptr @ take (?R - n) (drop n ptr) = take ?R ptr"
    using nR by (metis add_diff_inverse_nat not_less take_add)
  finally have one: "stored m' a ?R = take ?R ptr" .
  have two: "m' x = m x" if out: "\<forall>k < ?R. x \<noteq> a + of_nat k" for x
  proof -
    have "m' x = ?m1 x"
    proof (rule frame', intro allI impI)
      fix j assume "j < ?R - n"
      then have "n + j < ?R" by simp
      with out have "x \<noteq> a + of_nat (n + j)" by blast
      then show "x \<noteq> a + ?nb + of_nat j" using nb by (simp add: algebra_simps)
    qed
    also have "?m1 x = m x"
      using page out nR len by (intro storeBytes_outside) auto
    finally show ?thesis .
  qed
  from one two show ?case by blast
qed
section \<open>The loop of put and the specification's algorithm\<close>

lemma reads_polled: "reads (polled i sts @ evs) = reads evs"
  by (induction sts) (simp_all add: polled_def)

lemma spec_put_nil: "spec_put b m a [] = []"
  by (subst spec_put.simps) simp

lemma spec_put_same:
  assumes "src \<noteq> []" "n = chunk (unat (pageSize b)) (unat a) (length src)"
    "take n src = stored m a n"
  shows "spec_put b m a src = (a, take n src, False) # spec_put b m (a + of_nat n) (drop n src)"
  using assms by (subst spec_put.simps) (simp add: Let_def)

lemma spec_put_differs:
  assumes "src \<noteq> []" "n = chunk (unat (pageSize b)) (unat a) (length src)"
    "take n src \<noteq> stored m a n"
  shows "spec_put b m a src = (a, take n src, True)
           # spec_put b (storeBytes m a (take n src)) (a + of_nat n) (drop n src)"
  using assms by (subst spec_put.simps) (simp add: Let_def)

lemma put_run_spec:
  assumes "put_run b i m a ptr r evs m'" "unat r \<le> length ptr"
  shows "\<exists>rest. spec_writes b m a (take (unat r) ptr) = writes evs @ rest \<and>
           (Polled False \<notin> set evs \<longrightarrow>
              rest = [] \<and> reads evs = spec_reads b m a (take (unat r) ptr))"
  using assms
proof (induction rule: put_run.induct)
  case (finished m a ptr)
  then show ?case by (simp add: spec_writes_def spec_reads_def spec_put_nil)
next
  case (aborted r m a ptr sts)
  then show ?case by (simp add: writes_append writes_polled)
next
  case (unchanged r n a ptr m rest m' sts)
  have fits: "unat (r - nbytes b a r) \<le> length (drop n ptr)"
    using unchanged.prems unchanged.hyps(2) by (simp add: unat_sub_nbytes)
  from unchanged.IH[OF fits] obtain tl where tl:
    "spec_writes b m (a + nbytes b a r) (take (unat (r - nbytes b a r)) (drop n ptr))
       = writes rest @ tl"
    "Polled False \<notin> set rest \<longrightarrow> tl = [] \<and>
       reads rest = spec_reads b m (a + nbytes b a r) (take (unat (r - nbytes b a r)) (drop n ptr))"
    by blast
  let ?src = "take (unat r) ptr"
  have len: "length ?src = unat r" using unchanged.prems by simp
  have ne: "?src \<noteq> []" using unchanged.hyps(1) len by (auto simp add: unat_eq_0)
  have n: "n = chunk (unat (pageSize b)) (unat a) (length ?src)"
    using unchanged.hyps(2) len by (simp add: unat_nbytes_chunk)
  have nle: "n \<le> unat r" using unchanged.hyps(2) nbytes_le[of b a r] by simp
  have tk: "take n ?src = take n ptr" using nle by (simp add: min_def)
  have dr: "drop n ?src = take (unat (r - nbytes b a r)) (drop n ptr)"
    using unchanged.hyps(2) by (simp add: drop_take unat_sub_nbytes)
  have ofn: "(of_nat n :: uint16) = nbytes b a r" using unchanged.hyps(2) by simp
  have sp: "spec_put b m a ?src = (a, take n ptr, False)
      # spec_put b m (a + nbytes b a r) (take (unat (r - nbytes b a r)) (drop n ptr))"
    using spec_put_same[OF ne n] unchanged.hyps(3) tk dr ofn by simp
  have w: "writes (polled i sts @ [Polled True, Transmit i [hiByte a, loByte a] 0, Request i n]
             @ rest) = writes rest"
    by (simp add: writes_append writes_polled)
  have rd: "reads (polled i sts @ [Polled True, Transmit i [hiByte a, loByte a] 0, Request i n]
             @ rest) = (a, n) # reads rest"
    by (simp add: reads_polled wordAddress_bytes)
  have ln: "length (take n ptr) = n" using nle unchanged.prems by simp
  have "spec_writes b m a ?src = writes rest @ tl"
    using tl(1) by (simp add: sp spec_writes_def)
  moreover have "tl = [] \<and> (a, n) # reads rest = spec_reads b m a ?src"
    if "Polled False \<notin> set rest"
    using tl(2) that ln by (simp add: sp spec_reads_def)
  ultimately show ?case
    unfolding w rd by (intro exI[of _ tl]) simp
next
  case (written r n a ptr m rest m' sts sts' settled)
  have fits: "unat (r - nbytes b a r) \<le> length (drop n ptr)"
    using written.prems written.hyps(2) by (simp add: unat_sub_nbytes)
  from written.IH[OF fits] obtain tl where tl:
    "spec_writes b (storeBytes m a (take n ptr)) (a + nbytes b a r)
        (take (unat (r - nbytes b a r)) (drop n ptr)) = writes rest @ tl"
    "Polled False \<notin> set rest \<longrightarrow> tl = [] \<and>
       reads rest = spec_reads b (storeBytes m a (take n ptr)) (a + nbytes b a r)
                      (take (unat (r - nbytes b a r)) (drop n ptr))"
    by blast
  let ?src = "take (unat r) ptr"
  have len: "length ?src = unat r" using written.prems by simp
  have ne: "?src \<noteq> []" using written.hyps(1) len by (auto simp add: unat_eq_0)
  have n: "n = chunk (unat (pageSize b)) (unat a) (length ?src)"
    using written.hyps(2) len by (simp add: unat_nbytes_chunk)
  have nle: "n \<le> unat r" using written.hyps(2) nbytes_le[of b a r] by simp
  have tk: "take n ?src = take n ptr" using nle by (simp add: min_def)
  have dr: "drop n ?src = take (unat (r - nbytes b a r)) (drop n ptr)"
    using written.hyps(2) by (simp add: drop_take unat_sub_nbytes)
  have ofn: "(of_nat n :: uint16) = nbytes b a r" using written.hyps(2) by simp
  have sp: "spec_put b m a ?src = (a, take n ptr, True)
      # spec_put b (storeBytes m a (take n ptr)) (a + nbytes b a r)
          (take (unat (r - nbytes b a r)) (drop n ptr))"
    using spec_put_differs[OF ne n] written.hyps(3) tk dr ofn by simp
  have ln: "length (take n ptr) = n" using nle written.prems by simp
  have "take n ptr \<noteq> []" using written.hyps(1,2) nbytes_pos[of r b a] ln by auto
  then obtain x xs where x: "take n ptr = x # xs" by (cases "take n ptr") auto
  have w: "writes (polled i sts @ [Polled True, Transmit i [hiByte a, loByte a] 0, Request i n,
                       Transmit i (hiByte a # loByte a # take n ptr) 0]
          @ polled i sts' @ [Polled settled] @ rest) = (a, take n ptr) # writes rest"
    by (simp add: writes_append writes_polled x wordAddress_bytes)
  have rd: "reads (polled i sts @ [Polled True, Transmit i [hiByte a, loByte a] 0, Request i n,
                       Transmit i (hiByte a # loByte a # take n ptr) 0]
          @ polled i sts' @ [Polled settled] @ rest) = (a, n) # reads rest"
    by (simp add: reads_polled x wordAddress_bytes)
  have "spec_writes b m a ?src = ((a, take n ptr) # writes rest) @ tl"
    using tl(1) by (simp add: sp spec_writes_def)
  moreover have "tl = [] \<and> (a, n) # reads rest = spec_reads b m a ?src"
    if "Polled False \<notin> set rest"
    using tl(2) that ln by (simp add: sp spec_reads_def)
  ultimately show ?case
    unfolding w rd by (intro exI[of _ tl]) simp
qed

subsection \<open>An object that differs in its first chunk only\<close>

lemma scenario_partial:
  "\<exists>s'. put prompt AVR 30 [255, 1, 255] blank = Some (Inr ([255, 1, 255], s')) \<and>
        events_since blank s' =
          [Transmit 80 [0] 0, Polled True, Transmit 80 [0, 30] 0, Request 80 2,
           Transmit 80 [0, 30, 255, 1] 0, Transmit 80 [0] 0, Polled True,
           Transmit 80 [0] 0, Polled True, Transmit 80 [0, 32] 0, Request 80 1]"
  by (simp add: put_def sizeof_def put_loop_iter put_loop_done poll_defs chunk_defs prompt_def
      blank_def events_since_def)

lemma spec_put_partial:
  "spec_put AVR (mem blank) 30 [255, 1, 255] = [(30, [255, 1], True), (32, [255], False)]"
proof -
  have c1: "chunk (unat (pageSize AVR)) (unat (30 :: uint16)) (length [255, 1, 255 :: uint8]) = 2"
    by (simp add: chunk_def bytes_to_page_boundary_def pageSize_def)
  have c2: "chunk (unat (pageSize AVR)) (unat (32 :: uint16)) (length [255 :: uint8]) = 1"
    by (simp add: chunk_def bytes_to_page_boundary_def pageSize_def)
  have s1: "take 2 [255, 1, 255] \<noteq> stored (mem blank) 30 2"
    by (simp add: stored_def blank_def upt_rec)
  have s2: "take 1 [255] = stored (storeBytes (mem blank) 30 [255, 1]) 32 1"
    by (simp add: stored_def blank_def upt_rec nextInPage_def)
  have "spec_put AVR (mem blank) 30 [255, 1, 255]
        = (30, take 2 [255, 1, 255], True)
          # spec_put AVR (storeBytes (mem blank) 30 (take 2 [255, 1, 255])) (30 + of_nat 2)
              (drop 2 [255, 1, 255])"
    by (rule spec_put_differs[OF _ c1[symmetric] s1]) simp
  also have "\<dots> = (30, [255, 1], True)
                 # spec_put AVR (storeBytes (mem blank) 30 [255, 1]) 32 [255]"
    by simp
  also have "spec_put AVR (storeBytes (mem blank) 30 [255, 1]) 32 [255]
        = (32, take 1 [255], False)
          # spec_put AVR (storeBytes (mem blank) 30 [255, 1]) (32 + of_nat 1) (drop 1 [255])"
    by (rule spec_put_same[OF _ c2[symmetric] s2]) simp
  also have "\<dots> = [(32, [255], False)]"
    by (simp add: spec_put_nil)
  finally show ?thesis .
qed

section \<open>The claims about put\<close>

text \<open>
  C1. With a clock that keeps going, \<open>put\<close> returns, for every object, address and
  build. Every write transaction it issued carries exactly
  \<open>min(page_size - 2, bytes_to_page_boundary, remaining)\<close> payload bytes, where the
  cursor is the address the transaction carries and \<open>remaining\<close> is the object's size
  less the distance of the cursor from the start address (in \<^verbatim>\<open>uint16_t\<close> arithmetic).
  Hence no payload is longer than \<open>page_size - 2\<close>, and its first and last byte lie in the
  same page.
\<close>

theorem put_write_sizes:
  assumes "ticking e" and "length (readBuffer s) = 64"
  shows "\<exists>s'. put e b address t s = Some (Inr (t, s')) \<and>
     (\<forall>(cursor, data) \<in> set (writes (events_since s s')).
        length data = chunk (unat (pageSize b)) (unat cursor)
                        (unat (sizeof t - (cursor - address))) \<and>
        length data \<le> unat (pageSize b) - 2 \<and>
        unat cursor div unat (pageSize b)
          = (unat cursor + length data - 1) div unat (pageSize b))"
proof -
  from put_run_of_put[OF assms, of b address t]
  obtain s' where r: "put e b address t s = Some (Inr (t, s'))"
    "put_run b (I2CAddress s) (mem s) address t (sizeof t) (events_since s s') (mem s')"
    by blast
  note w = put_run_writes[OF r(2) unat_size_le]
  have "\<forall>(cursor, data) \<in> set (writes (events_since s s')).
        length data = chunk (unat (pageSize b)) (unat cursor)
                        (unat (sizeof t - (cursor - address))) \<and>
        length data \<le> unat (pageSize b) - 2 \<and>
        unat cursor div unat (pageSize b)
          = (unat cursor + length data - 1) div unat (pageSize b)"
  proof (clarify)
    fix cursor data
    assume m: "(cursor, data) \<in> set (writes (events_since s s'))"
    let ?p = "unat (pageSize b)"
    have len: "length data = chunk ?p (unat cursor)
                        (unat (sizeof t - (cursor - address)))"
      using bspec[OF w m] by simp
    have pos: "0 < length data" using writes_nonempty[OF m] by simp
    show "length data = chunk ?p (unat cursor)
                        (unat (sizeof t - (cursor - address))) \<and>
        length data \<le> ?p - 2 \<and>
        unat cursor div ?p = (unat cursor + length data - 1) div ?p"
      using len pos chunk_le[of ?p "unat cursor"] pageSize_pos[of b]
        chunk_within_page[of "length data" ?p "unat cursor"]
      by simp
  qed
  with r(1) show ?thesis by blast
qed

theorem put_write_sizes_witness:
  "\<exists>s'. put prompt AVR 30 [1, 2, 3, 4, 5, 6, 7, 8] blank
           = Some (Inr ([1, 2, 3, 4, 5, 6, 7, 8], s')) \<and>
        writes (events_since blank s') = [(30, [1, 2]), (32, [3, 4, 5, 6, 7, 8])] \<and>
        (\<forall>(cursor, data) \<in> set [(30, [1, 2 :: uint8]), (32, [3, 4, 5, 6, 7, 8])].
           length data = chunk (unat (pageSize AVR)) (unat cursor)
                (unat (sizeof [1, 2, 3, 4, 5, 6, 7, 8] - (cursor - 30))) \<and>
           length data \<le> unat (pageSize AVR) - 2 \<and>
           unat cursor div unat (pageSize AVR)
             = (unat cursor + length data - 1) div unat (pageSize AVR))"
proof -
  from put_write_sizes[OF ticking_prompt blank_readBuffer, of AVR 30 "[1, 2, 3, 4, 5, 6, 7, 8]"]
  obtain s' where r: "put prompt AVR 30 [1, 2, 3, 4, 5, 6, 7, 8] blank
           = Some (Inr ([1, 2, 3, 4, 5, 6, 7, 8], s'))"
    "\<forall>(cursor, data) \<in> set (writes (events_since blank s')).
           length data = chunk (unat (pageSize AVR)) (unat cursor)
                (unat (sizeof [1, 2, 3, 4, 5, 6, 7, 8] - (cursor - 30))) \<and>
           length data \<le> unat (pageSize AVR) - 2 \<and>
           unat cursor div unat (pageSize AVR)
             = (unat cursor + length data - 1) div unat (pageSize AVR)"
    by blast
  from scenario r(1) have w: "writes (events_since blank s')
      = [(30, [1, 2]), (32, [3, 4, 5, 6, 7, 8])]"
    by (auto simp add: wordAddress_def)
  show ?thesis by (intro exI[of _ s'] conjI r(1) w r(2)[unfolded w])
qed


text \<open>
  C10. With a clock that keeps going, \<open>put\<close> returns without a memory fault when
  \<open>readBuffer\<close> has its 64 bytes: every \<^verbatim>\<open>requestFrom\<close> of the run, one per call of
  \<open>readBytes\<close>, asks for at most \<open>pageSize - 2\<close> bytes, as does every value of
  \<open>nbytes\<close>; that is 30 on AVR and 62 on ESP8266, within the 64 bytes of \<open>readBuffer\<close>.
\<close>

theorem put_reads_fit_readBuffer:
  assumes "ticking e" and "length (readBuffer s) = 64"
  shows "\<exists>s'. put e b address t s = Some (Inr (t, s')) \<and>
     (\<forall>n \<in> set (requests (events_since s s')). n \<le> unat (pageSize b) - 2) \<and>
     unat (nbytes b a r) \<le> unat (pageSize b) - 2 \<and>
     unat (pageSize b) - 2 = (case b of AVR \<Rightarrow> 30 | ESP8266 \<Rightarrow> 62) \<and>
     unat (pageSize b) - 2 \<le> length (readBuffer s)"
proof -
  from put_run_of_put[OF assms, of b address t]
  obtain s' where r: "put e b address t s = Some (Inr (t, s'))"
    "put_run b (I2CAddress s) (mem s) address t (sizeof t) (events_since s s') (mem s')"
    by blast
  have "unat (pageSize b) - 2 = (case b of AVR \<Rightarrow> 30 | ESP8266 \<Rightarrow> 62)"
    by (cases b) (simp_all add: unat_pageSize)
  moreover have "unat (pageSize b) - 2 \<le> length (readBuffer s)"
    using assms(2) by (cases b) (simp_all add: unat_pageSize)
  ultimately show ?thesis
    using r(1) put_run_requests[OF r(2)] nbytes_le_putSize[of b a r] by blast
qed


theorem put_reads_fit_readBuffer_witness:
  "\<exists>s'. put prompt AVR 30 [1, 2, 3, 4, 5, 6, 7, 8] blank
           = Some (Inr ([1, 2, 3, 4, 5, 6, 7, 8], s')) \<and>
        requests (events_since blank s') = [2, 6] \<and>
        (\<forall>n \<in> set [2, 6]. n \<le> unat (pageSize AVR) - 2) \<and>
        unat (nbytes AVR 30 8) \<le> unat (pageSize AVR) - 2 \<and>
        unat (pageSize AVR) - 2 = 30 \<and>
        unat (pageSize AVR) - 2 \<le> length (readBuffer blank)"
proof -
  from put_reads_fit_readBuffer[OF ticking_prompt blank_readBuffer,
      of AVR 30 "[1, 2, 3, 4, 5, 6, 7, 8]" 30 8]
  obtain s' where r: "put prompt AVR 30 [1, 2, 3, 4, 5, 6, 7, 8] blank
           = Some (Inr ([1, 2, 3, 4, 5, 6, 7, 8], s'))"
    "\<forall>n \<in> set (requests (events_since blank s')). n \<le> unat (pageSize AVR) - 2"
    "unat (nbytes AVR 30 8) \<le> unat (pageSize AVR) - 2"
    "unat (pageSize AVR) - 2 = (case AVR of AVR \<Rightarrow> 30 | ESP8266 \<Rightarrow> 62)"
    "unat (pageSize AVR) - 2 \<le> length (readBuffer blank)"
    by blast
  from scenario r(1) have w: "requests (events_since blank s') = [2, 6]" by auto
  show ?thesis
    by (intro exI[of _ s'] conjI r(1) w r(2)[unfolded w] r(3) r(4)[simplified] r(5))
qed

text \<open>
  C3. With a clock that keeps going, \<open>put\<close> returns. When the bytes the EEPROM holds at
  the address equal the object's bytes, the run has no write transaction and leaves the
  EEPROM's contents as they were. In every run, each write transaction comes directly
  after a read transaction (address transmission and request) at the same address for as
  many bytes as the write carries. Each chunk is compared byte for byte: the write
  transactions of the run are, in order, the first of the chunks that \<open>spec_put\<close> finds
  to differ in some byte from what the EEPROM holds at their cursor when they are read;
  when no poll failed they are all of them, and the read transactions of the run are one
  for each chunk, at its cursor and of its length.
\<close>

theorem put_suppresses_unchanged:
  assumes "ticking e" and "length (readBuffer s) = 64"
  shows "\<exists>s'. put e b address t s = Some (Inr (t, s')) \<and>
     (stored (mem s) address (unat (sizeof t))
        = take (unat (sizeof t)) t \<longrightarrow>
      writes (events_since s s') = [] \<and> mem s' = mem s) \<and>
     (\<forall>(cursor, data) \<in> set (writes (events_since s s')).
        \<exists>pre post. events_since s s' =
          pre @ [Transmit (I2CAddress s) [hiByte cursor, loByte cursor] 0,
                 Request (I2CAddress s) (length data),
                 Transmit (I2CAddress s) (hiByte cursor # loByte cursor # data) 0] @ post) \<and>
     (\<exists>rest. spec_writes b (mem s) address (take (unat (sizeof t)) t)
               = writes (events_since s s') @ rest \<and>
        (Polled False \<notin> set (events_since s s') \<longrightarrow>
           rest = [] \<and>
           reads (events_since s s')
             = spec_reads b (mem s) address (take (unat (sizeof t)) t)))"
proof -
  from put_run_of_put[OF assms, of b address t]
  obtain s' where r: "put e b address t s = Some (Inr (t, s'))"
    "put_run b (I2CAddress s) (mem s) address t (sizeof t) (events_since s s') (mem s')"
    by blast
  have "stored (mem s) address (unat (sizeof t))
        = take (unat (sizeof t)) t \<longrightarrow>
      writes (events_since s s') = [] \<and> mem s' = mem s"
    using put_run_suppressed[OF r(2) unat_size_le] by simp
  with r(1) put_run_guarded[OF r(2) unat_size_le] put_run_spec[OF r(2) unat_size_le]
  show ?thesis
    by (intro exI[of _ s'] conjI)
qed

theorem put_suppresses_unchanged_witness:
  "(\<exists>s'. put prompt AVR 30 [255, 255, 255] blank = Some (Inr ([255, 255, 255], s')) \<and>
         stored (mem blank) 30 3 = [255, 255, 255] \<and>
         writes (events_since blank s') = [] \<and> mem s' = mem blank) \<and>
   (\<exists>s'. put prompt AVR 30 [1, 2, 3, 4, 5, 6, 7, 8] blank
            = Some (Inr ([1, 2, 3, 4, 5, 6, 7, 8], s')) \<and>
         writes (events_since blank s') = [(30, [1, 2]), (32, [3, 4, 5, 6, 7, 8])] \<and>
         (\<exists>pre post. events_since blank s' =
            pre @ [Transmit 80 [hiByte 30, loByte 30] 0, Request 80 2,
                   Transmit 80 [hiByte 30, loByte 30, 1, 2] 0] @ post)) \<and>
   (\<exists>s'. put prompt AVR 30 [255, 1, 255] blank = Some (Inr ([255, 1, 255], s')) \<and>
         Polled False \<notin> set (events_since blank s') \<and>
         stored (mem blank) 30 3 = [255, 255, 255] \<and>
         spec_put AVR (mem blank) 30 [255, 1, 255]
           = [(30, [255, 1], True), (32, [255], False)] \<and>
         writes (events_since blank s') = [(30, [255, 1])] \<and>
         spec_writes AVR (mem blank) 30 [255, 1, 255] = [(30, [255, 1])] \<and>
         reads (events_since blank s') = [(30, 2), (32, 1)] \<and>
         spec_reads AVR (mem blank) 30 [255, 1, 255] = [(30, 2), (32, 1)])"
proof (intro conjI)
  have same: "stored (mem blank) 30 (unat (sizeof [255, 255, 255]))
      = take (unat (sizeof [255, 255, 255])) [255, 255, 255]"
    by (simp add: stored_def blank_def sizeof_def upt_rec)
  from put_suppresses_unchanged[OF ticking_prompt blank_readBuffer, of AVR 30 "[255, 255, 255]"]
  obtain s' where r: "put prompt AVR 30 [255, 255, 255] blank = Some (Inr ([255, 255, 255], s'))"
    "stored (mem blank) 30 (unat (sizeof [255, 255, 255]))
      = take (unat (sizeof [255, 255, 255])) [255, 255, 255]
     \<longrightarrow> writes (events_since blank s') = [] \<and> mem s' = mem blank"
    by blast
  from r(2) same have "writes (events_since blank s') = []" "mem s' = mem blank" by blast+
  moreover have "stored (mem blank) 30 3 = [255, 255, 255]"
    by (simp add: stored_def blank_def upt_rec)
  ultimately show "\<exists>s'. put prompt AVR 30 [255, 255, 255] blank
         = Some (Inr ([255, 255, 255], s')) \<and>
         stored (mem blank) 30 3 = [255, 255, 255] \<and>
         writes (events_since blank s') = [] \<and> mem s' = mem blank"
    using r(1) by (intro exI[of _ s'] conjI)
next
  from put_suppresses_unchanged[OF ticking_prompt blank_readBuffer,
      of AVR 30 "[1, 2, 3, 4, 5, 6, 7, 8]"]
  obtain s' where r: "put prompt AVR 30 [1, 2, 3, 4, 5, 6, 7, 8] blank
            = Some (Inr ([1, 2, 3, 4, 5, 6, 7, 8], s'))"
    "\<forall>(cursor, data) \<in> set (writes (events_since blank s')).
        \<exists>pre post. events_since blank s' =
          pre @ [Transmit (I2CAddress blank) [hiByte cursor, loByte cursor] 0,
                 Request (I2CAddress blank) (length data),
                 Transmit (I2CAddress blank) (hiByte cursor # loByte cursor # data) 0] @ post"
    by blast
  from scenario r(1) have w: "writes (events_since blank s')
      = [(30, [1, 2]), (32, [3, 4, 5, 6, 7, 8])]"
    by (auto simp add: wordAddress_def)
  have "(30, [1, 2]) \<in> set (writes (events_since blank s'))" unfolding w by simp
  note guarded = bspec[OF r(2) this, unfolded prod.case]
  have i: "I2CAddress blank = 80" by (simp add: blank_def)
  have l: "length [1, 2 :: uint8] = 2" by simp
  from guarded[unfolded i l]
  have "\<exists>pre post. events_since blank s' =
            pre @ [Transmit 80 [hiByte 30, loByte 30] 0, Request 80 2,
                   Transmit 80 [hiByte 30, loByte 30, 1, 2] 0] @ post" .
  with r(1) w show "\<exists>s'. put prompt AVR 30 [1, 2, 3, 4, 5, 6, 7, 8] blank
            = Some (Inr ([1, 2, 3, 4, 5, 6, 7, 8], s')) \<and>
         writes (events_since blank s') = [(30, [1, 2]), (32, [3, 4, 5, 6, 7, 8])] \<and>
         (\<exists>pre post. events_since blank s' =
            pre @ [Transmit 80 [hiByte 30, loByte 30] 0, Request 80 2,
                   Transmit 80 [hiByte 30, loByte 30, 1, 2] 0] @ post)"
    by (intro exI[of _ s'] conjI)
next
  from put_suppresses_unchanged[OF ticking_prompt blank_readBuffer, of AVR 30 "[255, 1, 255]"]
  obtain s' rest where r: "put prompt AVR 30 [255, 1, 255] blank = Some (Inr ([255, 1, 255], s'))"
    "spec_writes AVR (mem blank) 30 (take (unat (sizeof [255, 1, 255])) [255, 1, 255])
       = writes (events_since blank s') @ rest"
    "Polled False \<notin> set (events_since blank s') \<longrightarrow>
       rest = [] \<and>
       reads (events_since blank s')
         = spec_reads AVR (mem blank) 30 (take (unat (sizeof [255, 1, 255])) [255, 1, 255])"
    by blast
  from scenario_partial r(1) have ev: "events_since blank s' =
          [Transmit 80 [0] 0, Polled True, Transmit 80 [0, 30] 0, Request 80 2,
           Transmit 80 [0, 30, 255, 1] 0, Transmit 80 [0] 0, Polled True,
           Transmit 80 [0] 0, Polled True, Transmit 80 [0, 32] 0, Request 80 1]"
    by auto
  have np: "Polled False \<notin> set (events_since blank s')" unfolding ev by simp
  have tk: "take (unat (sizeof [255, 1, 255 :: uint8])) [255, 1, 255 :: uint8] = [255, 1, 255]"
    by (simp add: sizeof_def)
  have w: "writes (events_since blank s') = [(30, [255, 1])]"
    unfolding ev by (simp add: wordAddress_def)
  have rd: "reads (events_since blank s') = [(30, 2), (32, 1)]"
    unfolding ev by (simp add: wordAddress_def)
  from r(3) np have rest: "rest = []"
    and sr: "reads (events_since blank s')
         = spec_reads AVR (mem blank) 30 (take (unat (sizeof [255, 1, 255])) [255, 1, 255])"
    by blast+
  have sw: "spec_writes AVR (mem blank) 30 [255, 1, 255] = [(30, [255, 1])]"
    using r(2) unfolding tk rest w by simp
  have sr': "spec_reads AVR (mem blank) 30 [255, 1, 255] = [(30, 2), (32, 1)]"
    using sr unfolding tk rd by simp
  have st: "stored (mem blank) 30 3 = [255, 255, 255]"
    by (simp add: stored_def blank_def upt_rec)
  show "\<exists>s'. put prompt AVR 30 [255, 1, 255] blank = Some (Inr ([255, 1, 255], s')) \<and>
         Polled False \<notin> set (events_since blank s') \<and>
         stored (mem blank) 30 3 = [255, 255, 255] \<and>
         spec_put AVR (mem blank) 30 [255, 1, 255]
           = [(30, [255, 1], True), (32, [255], False)] \<and>
         writes (events_since blank s') = [(30, [255, 1])] \<and>
         spec_writes AVR (mem blank) 30 [255, 1, 255] = [(30, [255, 1])] \<and>
         reads (events_since blank s') = [(30, 2), (32, 1)] \<and>
         spec_reads AVR (mem blank) 30 [255, 1, 255] = [(30, 2), (32, 1)]"
    by (intro exI[of _ s'] conjI r(1) np st spec_put_partial w sw rd sr')
qed


lemma put_loop_abort:
  assumes "r \<noteq> 0" "ackPolling e b s = Some (False, s1)"
  shows "put_loop e b a ptr r s = Some (Inr s1)"
  using assms by (subst put_loop.simps) (simp add: word_gt_0)


text \<open>
  C5. When the poll at the start of an iteration of the loop of \<open>put\<close> fails, the loop
  returns at once, normally, in the state the poll left: the only events since the start
  of the iteration are the unacknowledged poll attempts and the failed poll, and the
  EEPROM holds what it held at the start of the iteration. When this is the first
  iteration, \<open>put\<close> returns its argument \<open>t\<close> through the same normal return as a
  completed run.
\<close>

theorem put_aborts_on_timeout:
  assumes "remainingDataSize \<noteq> 0" and "ackPolling e b s = Some (False, s1)"
  shows "put_loop e b address ptr remainingDataSize s = Some (Inr s1) \<and>
         mem s1 = mem s \<and>
         (\<exists>sts. events_since s s1 = polled (I2CAddress s) sts @ [Polled False] \<and> 0 \<notin> set sts) \<and>
         (remainingDataSize = sizeof t \<longrightarrow> put e b address t s = Some (Inr (t, s1)))"
proof -
  note post = ackPolling_post[OF assms(2)]
  from post(7) obtain sts where sts: "trace s1 = trace s @ polled (I2CAddress s) sts @ [Polled False]"
    "False = (sts \<noteq> [] \<and> last sts = 0)" "0 \<notin> set (butlast sts)" by blast
  have "0 \<notin> set sts"
  proof (cases "sts = []")
    case True
    then show ?thesis by simp
  next
    case False
    then have "sts = butlast sts @ [last sts]" by simp
    then have "set sts = insert (last sts) (set (butlast sts))"
      by (metis Un_insert_right append_Nil2 list.simps(15) set_append)
    then show ?thesis using sts(2,3) False by auto
  qed
  moreover have "events_since s s1 = polled (I2CAddress s) sts @ [Polled False]"
    using sts(1) by (rule events_since_append)
  moreover have "put_loop e b address ptr remainingDataSize s = Some (Inr s1)" for ptr
    using assms by (rule put_loop_abort)
  ultimately show ?thesis using post(5) by (auto simp add: put_def)
qed


theorem put_aborts_on_timeout_witness:
  "\<exists>s1. ackPolling deaf AVR (blank\<lparr>busy := True\<rparr>) = Some (False, s1) \<and>
     put_loop deaf AVR 30 [1, 2, 3] 3 (blank\<lparr>busy := True\<rparr>) = Some (Inr s1) \<and>
     mem s1 = mem (blank\<lparr>busy := True\<rparr>) \<and>
     (\<exists>sts. events_since (blank\<lparr>busy := True\<rparr>) s1 = polled 80 sts @ [Polled False] \<and>
            0 \<notin> set sts) \<and>
     put deaf AVR 30 [1, 2, 3] (blank\<lparr>busy := True\<rparr>) = Some (Inr ([1, 2, 3], s1))"
proof -
  have "\<exists>s1. ackPolling deaf AVR (blank\<lparr>busy := True\<rparr>) = Some (False, s1)"
    by (simp add: poll_defs deaf_def blank_def)
  then obtain s1 where p: "ackPolling deaf AVR (blank\<lparr>busy := True\<rparr>) = Some (False, s1)" ..
  have nz: "(3 :: uint16) \<noteq> 0" by simp
  from put_aborts_on_timeout[OF nz p, of 30 "[1, 2, 3]" "[1, 2, 3]"] p
  show ?thesis by (intro exI[of _ s1]) (simp add: blank_def sizeof_def)
qed
section \<open>The single-byte accessors\<close>









section \<open>The loop of get\<close>

lemma readBytes_overrun:
  "0 < unat nB \<Longrightarrow> length buf < off + unat nB \<Longrightarrow>
   readBytes e b a buf off nB s = Inl BufferOverrun"
  by (simp add: readBytes_def readInto_overrun)

lemma length_readN: "length (fst (readN n s)) = n"
  by (simp add: readN_eq)

lemma readBytes_fits:
  assumes "off + unat nB \<le> length buf"
  shows "\<exists>t1 s1. readBytes e b a buf off nB s = Inr (t1, s1) \<and> length t1 = length buf"
  unfolding readBytes_def using assms by (simp add: readInto_fits length_readN)

lemma unat_bufferSize: "unat (bufferSize b) = (case b of ESP8266 \<Rightarrow> 128 | AVR \<Rightarrow> 32)"
  by (cases b) (simp_all add: bufferSize_def)

lemma unat_ucast_bufferSize: "unat (ucast (bufferSize b) :: uint16) = unat (bufferSize b)"
  by (cases b) (simp_all add: bufferSize_def)

lemma unat_block:
  assumes "i < size'"
  shows "unat (block b size' i) = min (unat (bufferSize b)) (unat size' - unat i)"
proof -
  have "i \<le> size'" using assms by simp
  then have sub: "unat (size' - i) = unat size' - unat i" by (rule unat_sub)
  have cap: "unat (bufferSize b) \<le> 128" by (cases b) (simp_all add: unat_bufferSize)
  show ?thesis
  proof (cases "size' - i < ucast (bufferSize b)")
    case True
    then have lt: "unat size' - unat i < unat (bufferSize b)"
      by (simp add: word_less_nat_alt sub unat_ucast_bufferSize)
    then have "unat (size' - i) < 256" using cap sub by simp
    then have "unat (ucast (size' - i) :: uint8) = unat size' - unat i"
      by (simp add: unat_ucast_small sub)
    then show ?thesis using True lt by (simp add: block_def)
  next
    case False
    then have "unat (bufferSize b) \<le> unat size' - unat i"
      by (simp add: word_less_nat_alt sub unat_ucast_bufferSize)
    then show ?thesis using False by (simp add: block_def)
  qed
qed

lemma get_loop_step:
  "get_loop e b address size' i t off s =
     (if i < size' then
        (case readBytes e b (address + i) t off (block b size' i) s of
           Inl f \<Rightarrow> Some (Inl f)
         | Inr (t1, s1) \<Rightarrow>
             get_loop e b address size' (i + ucast (bufferSize b)) t1
               (off + unat (block b size' i)) s1)
      else Some (Inr (t, s)))"
  by (rule get_loop.simps)

lemma get_loop_wrapped:
  assumes "unat (bufferSize b) \<le> unat size'" "length t \<le> off"
  shows "get_loop e b address size' 0 t off s = Some (Inl BufferOverrun)"
proof -
  have pos: "0 < unat (bufferSize b)" by (cases b) (simp_all add: unat_bufferSize)
  then have lt: "(0 :: uint16) < size'" using assms(1) by (simp add: word_less_nat_alt)
  have "unat (block b size' 0) = unat (bufferSize b)"
    using unat_block[OF lt, of b] assms(1) by simp
  then have "readBytes e b (address + 0) t off (block b size' 0) s = Inl BufferOverrun"
    using pos assms(2) by (intro readBytes_overrun) simp_all
  then show ?thesis using lt by (subst get_loop_step) simp
qed

lemma get_loop_overruns:
  assumes big: "65536 - unat (bufferSize b) < unat size'" and len: "length t = unat size'"
  shows "unat (bufferSize b) dvd unat i \<Longrightarrow> off = unat i \<Longrightarrow>
         get_loop e b address size' i t off s = Some (Inl BufferOverrun)"
  using len
proof (induction "65536 - unat i" arbitrary: i t off s rule: less_induct)
  case less
  let ?cap = "unat (bufferSize b)"
  have cap: "?cap = 32 \<or> ?cap = 128" by (cases b) (simp_all add: unat_bufferSize)
  have ilt: "unat i < 65536" using unsigned_less[of i, where ?'a = nat] by simp
  have ile: "unat i \<le> 65536 - ?cap"
    using less.prems(1) ilt cap by (auto elim!: dvdE)
  then have lt: "i < size'" using big by (simp add: word_less_nat_alt)
  note blk = unat_block[OF lt, of b]
  have N: "unat size' < 65536" using unsigned_less[of size', where ?'a = nat] by simp
  show ?case
  proof (cases "unat i = 65536 - ?cap")
    case True
    have b1: "unat (block b size' i) = unat size' - unat i" using blk True N by simp
    have fits: "off + unat (block b size' i) \<le> length t"
      using b1 less.prems(2,3) lt by (simp add: word_less_nat_alt)
    from readBytes_fits[OF fits] obtain t1 s1 where
      rd: "readBytes e b (address + i) t off (block b size' i) s = Inr (t1, s1)"
      "length t1 = length t" by blast
    have "unat (i + ucast (bufferSize b)) = (unat i + ?cap) mod 65536"
      by (simp add: unat_word_ariths unat_ucast_bufferSize)
    then have wrap: "i + ucast (bufferSize b) = 0"
      using True cap by (auto simp add: unat_eq_0[symmetric])
    have off': "length t1 \<le> off + unat (block b size' i)"
      using b1 less.prems(2,3) rd(2) lt by (simp add: word_less_nat_alt)
    have capN: "?cap \<le> unat size'" using big cap by auto
    show ?thesis
      using lt rd(1) wrap get_loop_wrapped[OF capN off']
      by (subst get_loop_step) simp
  next
    case False
    then have room: "unat i + ?cap \<le> 65536 - ?cap"
      using ile less.prems(1) cap by (auto elim!: dvdE)
    have b1: "unat (block b size' i) = ?cap" using blk room big by simp
    have fits: "off + unat (block b size' i) \<le> length t"
      using b1 less.prems(2,3) room big by simp
    from readBytes_fits[OF fits] obtain t1 s1 where
      rd: "readBytes e b (address + i) t off (block b size' i) s = Inr (t1, s1)"
      "length t1 = length t" by blast
    have nxt: "unat (i + ucast (bufferSize b)) = unat i + ?cap"
      using room cap by (auto simp add: unat_word_ariths unat_ucast_bufferSize)
    have "get_loop e b address size' (i + ucast (bufferSize b)) t1
            (off + unat (block b size' i)) s1 = Some (Inl BufferOverrun)"
      using less.prems(1,2,3) rd(2) cap ilt room
      by (intro less.hyps) (auto simp add: nxt b1)
    then show ?thesis using lt rd(1) by (subst get_loop_step) simp
  qed
qed

lemma unat_sizeof: "length t < 65536 \<Longrightarrow> unat (sizeof t) = length t"
  by (simp add: sizeof_def unat_of_nat)

lemma get_overrun:
  assumes "65536 - unat (bufferSize b) < length t" and "length t < 65536"
    and "ackPolling e b s = Some (True, s1)"
  shows "get e b address t s = Some (Inl BufferOverrun)"
proof -
  have n: "unat (sizeof t) = length t" using assms(2) by (rule unat_sizeof)
  have "get_loop e b address (sizeof t) 0 t 0 s1 = Some (Inl BufferOverrun)"
    using assms(1) n by (intro get_loop_overruns) simp_all
  then show ?thesis using assms(3) by (simp add: get_def)
qed

lemma counter_wraps: "of_nat (65536 - unat (bufferSize b)) + ucast (bufferSize b) = (0 :: uint16)"
  by (cases b) (simp_all add: bufferSize_def)

lemma prompt_poll_ok: "\<exists>s1. ackPolling prompt b s = Some (True, s1)"
proof -
  have "clock prompt (Suc (ticks s)) - clock prompt (ticks s) = 100"
    by (simp add: prompt_def algebra_simps)
  then have "clock prompt (Suc (ticks s)) - clock prompt (ticks s) < 6000" by simp
  then show ?thesis
    by (simp add: ackPolling_def micros_def attempt_step attempt_eq prompt_def)
qed

subsection \<open>Objects of at most \<open>65536 - bufferSize\<close> bytes\<close>

text \<open>
  For these objects the counter of \<open>get\<close> does not wrap. \<open>get\<close> polls once and, when
  the poll succeeds, reads the object in \<open>ceil(S / bufferSize)\<close> read transactions of
  \<open>min(bufferSize, remaining)\<close> bytes at increasing addresses, and returns the bytes the
  EEPROM holds; after a \<open>put\<close> of an object that lies within the address space, with no
  failed poll, these are the object's bytes.
\<close>

lemma bufferSize_le_wire: "unat (bufferSize b) \<le> wireCapacity b"
  by (cases b) (simp_all add: bufferSize_def wireCapacity_def)

lemma bufferSize_pos: "0 < unat (bufferSize b)"
  by (cases b) (simp_all add: bufferSize_def)

lemma ceil_div_le:
  assumes "0 < c" "c dvd i" "n \<le> i"
  shows "(n + c - 1) div c \<le> i div (c :: nat)"
proof -
  from assms(2) obtain q where q: "i = c * q" by (rule dvdE)
  have "n + c - 1 < c * q + c" using assms(1,3) q by simp
  then have "(n + c - 1) div c < q + 1"
    using assms(1) by (simp add: less_mult_imp_div_less algebra_simps)
  then show ?thesis using q assms(1) by simp
qed

lemma ceil_div_gt:
  assumes "0 < c" "c dvd i" "i < n"
  shows "i div c < (n + c - 1) div (c :: nat)"
proof -
  from assms(2) obtain q where q: "i = c * q" by (rule dvdE)
  have "c * (q + 1) \<le> n + c - 1" using assms(1,3) q by simp
  then have "q + 1 \<le> (n + c - 1) div c"
    using assms(1) by (metis div_le_mono nonzero_mult_div_cancel_left less_numeral_extra(3))
  then show ?thesis using q assms(1) by simp
qed

lemma get_loop_reads:
  assumes N: "length t = unat size'" and room: "unat size' + unat (bufferSize b) \<le> 65536"
  shows "\<not> busy s \<Longrightarrow> unat (bufferSize b) dvd unat i \<Longrightarrow> off = min (unat i) (unat size') \<Longrightarrow>
         unat i < unat size' + unat (bufferSize b) \<Longrightarrow>
     \<exists>s'. get_loop e b address size' i t off s =
            Some (Inr (take off t @ stored (mem s) (address + of_nat off) (unat size' - off)
                         @ drop (unat size') t, s')) \<and>
          mem s' = mem s \<and> \<not> busy s' \<and> I2CAddress s' = I2CAddress s \<and>
          trace s' = trace s @ chunkEvents (I2CAddress s) address (unat (bufferSize b))
                                 (unat size') (unat i div unat (bufferSize b))"
  using N
proof (induction "unat size' + unat (bufferSize b) - unat i" arbitrary: i t off s rule: less_induct)
  case less
  let ?cap = "unat (bufferSize b)"
  let ?N = "unat size'"
  note cap = bufferSize_pos[of b]
  show ?case
  proof (cases "i < size'")
    case False
    then have ge: "?N \<le> unat i" by (simp add: word_less_nat_alt)
    then have off: "off = ?N" using less.prems(3) by simp
    have "(?N + ?cap - 1) div ?cap \<le> unat i div ?cap"
      using cap less.prems(2) ge by (rule ceil_div_le)
    then have "chunkEvents (I2CAddress s) address ?cap ?N (unat i div ?cap) = []"
      by (simp add: chunkEvents_def)
    moreover have "get_loop e b address size' i t off s = Some (Inr (t, s))"
      using False by (subst get_loop_step) simp
    moreover have "take off t @ stored (mem s) (address + of_nat off) (?N - off) @ drop ?N t = t"
      using off less.prems(5) by (simp add: stored_def)
    ultimately show ?thesis using less.prems(1) by simp
  next
    case True
    then have lt: "unat i < ?N" by (simp add: word_less_nat_alt)
    then have off: "off = unat i" using less.prems(3) by simp
    let ?blk = "unat (block b size' i)"
    have blk: "?blk = min ?cap (?N - unat i)" using unat_block[OF True] by simp
    have blk_pos: "0 < ?blk" using blk cap lt by simp
    have fits: "off + ?blk \<le> length t" using blk off lt less.prems(5) by simp
    have wire: "?blk \<le> wireCapacity b" using blk bufferSize_le_wire[of b] by simp
    let ?t1 = "take off t @ stored (mem s) (address + i) ?blk @ drop (off + ?blk) t"
    let ?s1 = "afterRead (address + i) ?blk s"
    have rd: "readBytes e b (address + i) t off (block b size' i) s = Inr (?t1, ?s1)"
      using readBytes_ready[OF less.prems(1) wire fits] by simp
    let ?i' = "i + ucast (bufferSize b)"
    have i': "unat ?i' = unat i + ?cap"
      using lt room by (simp add: unat_word_ariths unat_ucast_bufferSize)
    have s1: "\<not> busy ?s1" "mem ?s1 = mem s" "I2CAddress ?s1 = I2CAddress s"
      "trace ?s1 = trace s @ [Transmit (I2CAddress s) [hiByte (address + i), loByte (address + i)] 0,
                              Request (I2CAddress s) ?blk]"
      using less.prems(1) by (simp_all add: afterRead_def)
    have len1: "length ?t1 = ?N" using fits less.prems(5) by (simp add: length_stored)
    have off': "off + ?blk = min (unat ?i') ?N" using blk off i' lt by simp
    have "\<exists>s'. get_loop e b address size' ?i' ?t1 (off + ?blk) ?s1 =
            Some (Inr (take (off + ?blk) ?t1
                         @ stored (mem ?s1) (address + of_nat (off + ?blk)) (?N - (off + ?blk))
                         @ drop ?N ?t1, s')) \<and>
          mem s' = mem ?s1 \<and> \<not> busy s' \<and> I2CAddress s' = I2CAddress ?s1 \<and>
          trace s' = trace ?s1 @ chunkEvents (I2CAddress ?s1) address ?cap ?N (unat ?i' div ?cap)"
      using s1(1) less.prems(2,4) off' len1 cap lt
      by (intro less.hyps) (simp_all add: i')
    then obtain s' where rec:
      "get_loop e b address size' ?i' ?t1 (off + ?blk) ?s1 =
            Some (Inr (take (off + ?blk) ?t1
                         @ stored (mem s) (address + of_nat (off + ?blk)) (?N - (off + ?blk))
                         @ drop ?N ?t1, s'))"
      "mem s' = mem s" "\<not> busy s'" "I2CAddress s' = I2CAddress s"
      "trace s' = trace ?s1 @ chunkEvents (I2CAddress s) address ?cap ?N (unat ?i' div ?cap)"
      using s1(2,3) by auto
    have t1a: "take (off + ?blk) ?t1 = take off t @ stored (mem s) (address + i) ?blk"
      using fits by (simp add: length_stored)
    have t1b: "drop ?N ?t1 = drop ?N t"
      using fits less.prems(5) by (simp add: length_stored)
    have ai: "address + of_nat off = address + i" using off by simp
    have st: "stored (mem s) (address + i) ?blk
                @ stored (mem s) (address + of_nat (off + ?blk)) (?N - (off + ?blk))
              = stored (mem s) (address + of_nat off) (?N - off)"
    proof -
      have "?N - off = ?blk + (?N - (off + ?blk))" using fits less.prems(5) by simp
      then have "stored (mem s) (address + i) (?N - off)
           = stored (mem s) (address + i) ?blk
               @ stored (mem s) (address + i + of_nat ?blk) (?N - (off + ?blk))"
        using stored_append[of "mem s" "address + i" ?blk "?N - (off + ?blk)"] by simp
      then show ?thesis using off by (simp add: algebra_simps)
    qed
    have res: "take (off + ?blk) ?t1
                 @ stored (mem s) (address + of_nat (off + ?blk)) (?N - (off + ?blk))
                 @ drop ?N ?t1
               = take off t @ stored (mem s) (address + of_nat off) (?N - off) @ drop ?N t"
      unfolding t1a t1b using st by simp
    obtain q where q: "unat i = ?cap * q" using less.prems(2) by (rule dvdE)
    have j: "unat i div ?cap = q" "unat ?i' div ?cap = Suc q"
      using q cap i' by simp_all
    have jlt: "q < (?N + ?cap - 1) div ?cap"
      using ceil_div_gt[OF cap less.prems(2) lt] j(1) by simp
    have iq: "address + of_nat (q * ?cap) = address + i"
    proof -
      have "of_nat (q * ?cap) = (of_nat (unat i) :: uint16)" using q by (simp add: mult.commute)
      then show ?thesis by simp
    qed
    have ev: "chunkEvents (I2CAddress s) address ?cap ?N q
              = [Transmit (I2CAddress s) [hiByte (address + i), loByte (address + i)] 0,
                 Request (I2CAddress s) ?blk]
                @ chunkEvents (I2CAddress s) address ?cap ?N (Suc q)"
      unfolding chunkEvents_def using jlt blk q iq
      by (simp add: upt_conv_Cons mult.commute)
    have "get_loop e b address size' i t off s =
            Some (Inr (take off t @ stored (mem s) (address + of_nat off) (?N - off)
                         @ drop ?N t, s'))"
      using True rd rec(1) res by (subst get_loop_step) simp
    moreover have "trace s' = trace s @ chunkEvents (I2CAddress s) address ?cap ?N
                                          (unat i div ?cap)"
      using rec(5) s1(4) ev j by simp
    ultimately show ?thesis using rec(2,3,4) by blast
  qed
qed

lemma reads_chunkEvents:
  "reads (chunkEvents target address cap n j)
     = map (\<lambda>k. (address + of_nat (k * cap), min cap (n - k * cap))) [j ..< (n + cap - 1) div cap]"
proof -
  have "reads (concat (map (\<lambda>k. [Transmit target [hiByte (address + of_nat (k * cap)),
                                         loByte (address + of_nat (k * cap))] 0,
                        Request target (min cap (n - k * cap))]) ks))
        = map (\<lambda>k. (address + of_nat (k * cap), min cap (n - k * cap))) ks" for ks
    by (induction ks) (simp_all add: wordAddress_bytes)
  then show ?thesis by (simp add: chunkEvents_def)
qed

lemma get_in_range:
  assumes "length t + unat (bufferSize b) \<le> 65536" and "ackPolling e b s = Some (True, s1)"
  shows "\<exists>s' sts. get e b address t s = Some (Inr (stored (mem s) address (length t), s')) \<and>
           mem s' = mem s \<and>
           trace s' = trace s @ polled (I2CAddress s) sts @ [Polled True]
              @ chunkEvents (I2CAddress s) address (unat (bufferSize b)) (length t) 0"
proof -
  have len: "length t < 65536" using assms(1) bufferSize_pos[of b] by simp
  have n: "unat (sizeof t) = length t" using len by (rule unat_sizeof)
  note post = ackPolling_post[OF assms(2)]
  from post(7) obtain sts where
    sts: "trace s1 = trace s @ polled (I2CAddress s) sts @ [Polled True]" by blast
  have ready: "\<not> busy s1" using post(8) by simp
  have "\<exists>s'. get_loop e b address (sizeof t) 0 t 0 s1 =
            Some (Inr (take 0 t @ stored (mem s1) (address + of_nat 0) (unat (sizeof t) - 0)
                         @ drop (unat (sizeof t)) t, s')) \<and>
          mem s' = mem s1 \<and> \<not> busy s' \<and> I2CAddress s' = I2CAddress s1 \<and>
          trace s' = trace s1 @ chunkEvents (I2CAddress s1) address (unat (bufferSize b))
                                 (unat (sizeof t)) (unat (0 :: uint16) div unat (bufferSize b))"
    using ready assms(1) n bufferSize_pos[of b]
    by (intro get_loop_reads) simp_all
  then obtain s' where r:
    "get_loop e b address (sizeof t) 0 t 0 s1 = Some (Inr (stored (mem s) address (length t), s'))"
    "mem s' = mem s"
    "trace s' = trace s1 @ chunkEvents (I2CAddress s) address (unat (bufferSize b)) (length t) 0"
    using n post(2,5) by auto
  have "get e b address t s = Some (Inr (stored (mem s) address (length t), s'))"
    using assms(2) r(1) by (simp add: get_def)
  moreover have "trace s' = trace s @ polled (I2CAddress s) sts @ [Polled True]
              @ chunkEvents (I2CAddress s) address (unat (bufferSize b)) (length t) 0"
    using r(3) sts by simp
  ultimately show ?thesis using r(2) by blast
qed

lemma put_run_trace:
  assumes "ticking e" "length (readBuffer s) = 64"
  shows "\<exists>s' evs. put e b a t s = Some (Inr (t, s')) \<and>
           put_run b (I2CAddress s) (mem s) a t (sizeof t) evs (mem s') \<and>
           trace s' = trace s @ evs"
proof -
  from put_loop_run[OF assms unat_size_le, of b a t]
  obtain s' evs where r: "put_loop e b a t (sizeof t) s = Some (Inr s')"
    "trace s' = trace s @ evs"
    "put_run b (I2CAddress s) (mem s) a t (sizeof t) evs (mem s')" by blast
  have "put e b a t s = Some (Inr (t, s'))" using r(1) by (simp add: put_def)
  then show ?thesis using r(2,3) by auto
qed

lemma put_get_in_range:
  assumes "ticking e" and "length (readBuffer s) = 64"
    and "length t + unat (bufferSize b) \<le> 65536" and "unat address + length t \<le> 65536"
    and "length dst = length t"
  shows "\<exists>s1 res s2. put e b address t s = Some (Inr (t, s1)) \<and>
           get e b address dst s1 = Some (Inr (res, s2)) \<and>
           (Polled False \<notin> set (events_since s s2) \<longrightarrow> res = t)"
proof -
  have len: "length t < 65536" using assms(3) bufferSize_pos[of b] by simp
  have n: "unat (sizeof t) = length t" using len by (rule unat_sizeof)
  from put_run_trace[OF assms(1,2), of b address t]
  obtain s1 evs where put: "put e b address t s = Some (Inr (t, s1))"
    "put_run b (I2CAddress s) (mem s) address t (sizeof t) evs (mem s1)"
    "trace s1 = trace s @ evs" by blast
  from ticking_returns[OF assms(1)] obtain ok s2 where poll: "ackPolling e b s1 = Some (ok, s2)"
    by blast
  from ackPolling_post(7)[OF poll] obtain sts where
    sts: "trace s2 = trace s1 @ polled (I2CAddress s1) sts @ [Polled ok]" by blast
  show ?thesis
  proof (cases ok)
    case False
    have g: "get e b address dst s1 = Some (Inr (dst, s2))"
      using poll False by (simp add: get_def)
    have "events_since s s2 = evs @ polled (I2CAddress s1) sts @ [Polled ok]"
      by (rule events_since_append) (simp add: sts put(3))
    then have "Polled False \<in> set (events_since s s2)" using False by simp
    then have "Polled False \<notin> set (events_since s s2) \<longrightarrow> dst = t" by simp
    with put(1) g show ?thesis by (intro exI[of _ s1] exI[of _ dst] exI[of _ s2] conjI)
  next
    case True
    from get_in_range[of dst b e s1 s2 address] assms(3,5) poll True
    obtain s3 sts' where g: "get e b address dst s1
        = Some (Inr (stored (mem s1) address (length dst), s3))"
      "trace s3 = trace s1 @ polled (I2CAddress s1) sts' @ [Polled True]
              @ chunkEvents (I2CAddress s1) address (unat (bufferSize b)) (length dst) 0"
      by auto
    have "stored (mem s1) address (length dst) = t"
      if "Polled False \<notin> set (events_since s s3)"
    proof -
      have "events_since s s3 = evs @ polled (I2CAddress s1) sts' @ [Polled True]
              @ chunkEvents (I2CAddress s1) address (unat (bufferSize b)) (length dst) 0"
        by (rule events_since_append) (simp add: g(2) put(3))
      then have "Polled False \<notin> set evs" using that by simp
      from put_run_stores[OF put(2) unat_size_le this] assms(4) n
      have "stored (mem s1) address (length t) = take (length t) t" by simp
      then show ?thesis using assms(5) by simp
    qed
    then have "Polled False \<notin> set (events_since s s3)
               \<longrightarrow> stored (mem s1) address (length dst) = t" by simp
    with put(1) g(1) show ?thesis
      by (intro exI[of _ s1] exI[of _ "stored (mem s1) address (length dst)"] exI[of _ s3] conjI)
  qed
qed

lemma polls_append: "polls (xs @ ys) = polls xs @ polls ys"
  by (induction xs rule: polls.induct) simp_all

lemma polls_polled: "polls (polled i sts) = []"
  by (induction sts) (simp_all add: polled_def)

lemma polls_chunkEvents: "polls (chunkEvents target address cap n j) = []"
proof -
  have "polls (concat (map (\<lambda>k. [Transmit target [hiByte (address + of_nat (k * cap)),
                                         loByte (address + of_nat (k * cap))] 0,
                        Request target (min cap (n - k * cap))]) ks)) = []" for ks
    by (induction ks) simp_all
  then show ?thesis by (simp add: chunkEvents_def)
qed

lemma get_in_range_reads:
  assumes "length t + unat (bufferSize b) \<le> 65536" and "ackPolling e b s = Some (True, s1)"
  shows "\<exists>s'. get e b address t s = Some (Inr (stored (mem s) address (length t), s')) \<and>
           polls (events_since s s') = [True] \<and>
           reads (events_since s s') =
             map (\<lambda>k. (address + of_nat (k * unat (bufferSize b)),
                        min (unat (bufferSize b)) (length t - k * unat (bufferSize b))))
                 [0 ..< (length t + unat (bufferSize b) - 1) div unat (bufferSize b)]"
proof -
  from get_in_range[OF assms, of address]
  obtain s' sts where g: "get e b address t s = Some (Inr (stored (mem s) address (length t), s'))"
    "trace s' = trace s @ polled (I2CAddress s) sts @ [Polled True]
              @ chunkEvents (I2CAddress s) address (unat (bufferSize b)) (length t) 0" by blast
  have ev: "events_since s s' = polled (I2CAddress s) sts @ [Polled True]
              @ chunkEvents (I2CAddress s) address (unat (bufferSize b)) (length t) 0"
    using g(2) by (rule events_since_append)
  have "polls (events_since s s') = [True]"
    unfolding ev by (simp add: polls_append polls_polled polls_chunkEvents)
  moreover have "reads (events_since s s') =
             map (\<lambda>k. (address + of_nat (k * unat (bufferSize b)),
                        min (unat (bufferSize b)) (length t - k * unat (bufferSize b))))
                 [0 ..< (length t + unat (bufferSize b) - 1) div unat (bufferSize b)]"
    unfolding ev by (simp add: reads_polled reads_chunkEvents)
  ultimately show ?thesis using g(1) by blast
qed

subsection \<open>Larger objects\<close>

text \<open>
  C6 fails on objects of more than \<open>65536 - bufferSize\<close> bytes (65504 on AVR, 65408 on
  ESP8266) that still have a 16-bit size. After the last chunk the \<^verbatim>\<open>uint16_t\<close> counter
  \<^verbatim>\<open>i\<close> of line 127, which stands at \<open>65536 - bufferSize\<close>, wraps to 0 instead of
  reaching \<^verbatim>\<open>size\<close>; the loop goes on with one more read transaction, and the bytes it
  delivers are stored past the end of the object. Whenever its poll succeeds, \<open>get\<close> on
  such an object ends in that memory fault.
\<close>

theorem get_overruns_large_object:
  assumes "65536 - unat (bufferSize b) < length t" and "length t < 65536"
    and "ackPolling e b s = Some (True, s1)"
  shows "get e b address t s = Some (Inl BufferOverrun) \<and>
         of_nat (65536 - unat (bufferSize b)) + ucast (bufferSize b) = (0 :: uint16)"
  using get_overrun[OF assms] counter_wraps by simp

theorem get_overruns_large_object_witness:
  "get prompt AVR 0 (replicate 65535 0) blank = Some (Inl BufferOverrun) \<and>
   of_nat (65536 - unat (bufferSize AVR)) + ucast (bufferSize AVR) = (0 :: uint16)"
proof -
  obtain s1 where p: "ackPolling prompt AVR blank = Some (True, s1)"
    using prompt_poll_ok by blast
  have "65536 - unat (bufferSize AVR) < length (replicate 65535 (0 :: uint8))"
    by (simp add: bufferSize_def)
  moreover have "length (replicate 65535 (0 :: uint8)) < 65536" by simp
  ultimately show ?thesis using p by (rule get_overruns_large_object)
qed

text \<open>
  C2 fails on the same objects, for the same reason. \<open>put\<close> stores such an object and
  returns; the \<open>get\<close> that follows does not yield the object: it ends in the memory fault
  of the wrapped counter, or, when its poll failed, returns the destination as it was.
\<close>

theorem put_then_get_large_object:
  assumes "ticking e" and "length (readBuffer s) = 64"
    and "65536 - unat (bufferSize b) < length t" and "length t < 65536"
    and "length dst = length t"
  shows "\<exists>s1 r. put e b address t s = Some (Inr (t, s1)) \<and>
           get e b address dst s1 = Some r \<and>
           (case r of Inl f \<Rightarrow> f = BufferOverrun
            | Inr (res, s2) \<Rightarrow> res = dst \<and> Polled False \<in> set (events_since s1 s2))"
proof -
  from put_run_of_put[OF assms(1,2), of b address t]
  obtain s1 where put: "put e b address t s = Some (Inr (t, s1))" by blast
  from ticking_returns[OF assms(1)] obtain ok s2 where poll: "ackPolling e b s1 = Some (ok, s2)"
    by blast
  show ?thesis
  proof (cases ok)
    case True
    have "get e b address dst s1 = Some (Inl BufferOverrun)"
      using assms(3,4,5) poll True by (intro get_overrun) simp_all
    with put show ?thesis by (intro exI[of _ s1] exI[of _ "Inl BufferOverrun"]) simp
  next
    case False
    from ackPolling_post(7)[OF poll] False have "Polled False \<in> set (events_since s1 s2)"
      by (auto simp add: events_since_def)
    moreover have "get e b address dst s1 = Some (Inr (dst, s2))"
      using poll False by (simp add: get_def)
    ultimately show ?thesis using put
      by (intro exI[of _ s1] exI[of _ "Inr (dst, s2)"]) simp
  qed
qed

theorem put_then_get_large_object_witness:
  "\<exists>s1. put prompt AVR 0 (replicate 65535 1) blank = Some (Inr (replicate 65535 1, s1)) \<and>
         get prompt AVR 0 (replicate 65535 0) s1 = Some (Inl BufferOverrun)"
proof -
  have "65536 - unat (bufferSize AVR) < length (replicate 65535 (1 :: uint8))"
    by (simp add: bufferSize_def)
  moreover have "length (replicate 65535 (1 :: uint8)) < 65536" by simp
  moreover have "length (replicate 65535 (0 :: uint8)) = length (replicate 65535 (1 :: uint8))"
    by simp
  ultimately obtain s1 r where r:
    "put prompt AVR 0 (replicate 65535 1) blank = Some (Inr (replicate 65535 1, s1))"
    "get prompt AVR 0 (replicate 65535 0) s1 = Some r"
    "case r of Inl f \<Rightarrow> f = BufferOverrun
     | Inr (res, s2) \<Rightarrow> res = replicate 65535 0 \<and> Polled False \<in> set (events_since s1 s2)"
    using put_then_get_large_object[OF ticking_prompt blank_readBuffer,
        of AVR "replicate 65535 1" "replicate 65535 0" 0] by blast
  obtain s2 where p: "ackPolling prompt AVR s1 = Some (True, s2)"
    using prompt_poll_ok by blast
  have "get prompt AVR 0 (replicate 65535 0) s1 = Some (Inl BufferOverrun)"
    using p by (intro get_overrun) (simp_all add: bufferSize_def)
  with r(2) have "r = Inl BufferOverrun" by simp
  with r(1,2) show ?thesis by (intro exI[of _ s1]) simp
qed

end
